theory Spec2Isabelle
  imports Main "HOL-Library.AList" "HOL-Library.Sublist"
begin

section \<open>Python values shared by both modules\<close>

text \<open>
  Exceptions of the source are values. \<open>KeyError\<close> is what a dictionary subscript
  \<^verbatim>\<open>d[k]\<close> raises on a missing key, \<open>ValueError\<close> is raised by \<^verbatim>\<open>upsert_rows\<close> with the
  list of missing key columns, and the next three are what \<^verbatim>\<open>sqlite3\<close> raises:
  \<open>OperationalError\<close> (no such table, no such column, duplicate column name, syntax
  error), \<open>IntegrityError\<close> (a violated \<^verbatim>\<open>NOT NULL\<close> constraint) and \<open>OverflowError\<close> (a
  Python integer that does not fit the 64 bits of an SQLite integer).

  \<open>OutsideModel\<close> is no exception of the source. The source writes column names unquoted
  into the text of its statements; what the engine makes of a name that is not a plain
  identifier (a reserved word, a name with blanks, quotes or comment marks) is decided by
  its parser, which is not embedded here. A run that would send such a name to the engine
  ends in \<open>OutsideModel\<close>, and the statements below are about frames whose labels are
  plain identifiers, where no run does.
\<close>

datatype error =
    KeyError
  | ValueError "string list"
  | OperationalError
  | IntegrityError
  | OverflowError
  | OutsideModel

text \<open>Dictionaries are association lists; the three ways the source reads them.\<close>

definition dict_contains :: "('k \<times> 'v) list \<Rightarrow> 'k \<Rightarrow> bool" where
  \<comment> \<open>\<^verbatim>\<open>k in d\<close>\<close>
  "dict_contains d k = (k \<in> set (map fst d))"

definition dict_subscript :: "('k \<times> 'v) list \<Rightarrow> 'k \<Rightarrow> error + 'v" where
  \<comment> \<open>\<^verbatim>\<open>d[k]\<close>, which raises on a missing key\<close>
  "dict_subscript d k = (case map_of d k of None \<Rightarrow> Inl KeyError | Some v \<Rightarrow> Inr v)"

definition dict_get :: "('k \<times> 'v option) list \<Rightarrow> 'k \<Rightarrow> 'v option" where
  \<comment> \<open>\<^verbatim>\<open>d.get(k)\<close>: \<open>None\<close> for a missing key, and the stored value may itself be \<open>None\<close>\<close>
  "dict_get d k = (case map_of d k of None \<Rightarrow> None | Some v \<Rightarrow> v)"


section \<open>mapping.py: the semantic-to-physical registry\<close>

type_synonym entry = "(string \<times> string option) list"
type_synonym var_map = "(string \<times> (string \<times> entry) list) list"

definition both_years :: "string \<Rightarrow> string \<Rightarrow> (string \<times> entry) list" where
  "both_years codigo tipo =
     [(''2013'', [(''codigo'', Some codigo), (''tipo'', Some tipo)]),
      (''2019'', [(''codigo'', Some codigo), (''tipo'', Some tipo)])]"

definition VAR_MAP :: var_map where
  "VAR_MAP =
    [(''identificador_unidade'', both_years ''upa_pns'' ''string''),
     (''sigla_uf'', both_years ''sigla_uf'' ''string''),
     (''v0024'', both_years ''v0024'' ''string''),
     (''sexo'', both_years ''c006'' ''string''),
     (''idade'', both_years ''c008'' ''int''),
     (''preventivo'', both_years ''r001'' ''string''),
     (''mamografia'', both_years ''r015'' ''string''),
     (''renda_per_capita'', both_years ''vdf003'' ''float''),
     (''peso_amostral'', both_years ''v00291'' ''float''),
     (''preventivo_pagou'', both_years ''r012'' ''string''),
     (''medico_pediu_mamografia'', both_years ''r014'' ''string''),
     (''mamografia_pagou'', both_years ''r019'' ''string''),
     (''raca'', both_years ''c009'' ''string''),
     (''anos_estudo'', both_years ''vdd004a'' ''int''),
     (''ja_engravidou'', both_years ''r039'' ''string''),
     (''filhos_vivos'', both_years ''r045'' ''int''),
     (''estado_civil'', both_years ''c011'' ''string'')]"

text \<open>
  The lookups read the module-level table; here the table is their first argument, so
  that a statement can speak about every table and about \<open>VAR_MAP\<close> in particular.
\<close>

definition lookup_field :: "var_map \<Rightarrow> string \<Rightarrow> string \<Rightarrow> string \<Rightarrow> error + string option" where
  \<comment> \<open>the common body of \<^verbatim>\<open>get_codigo_fisico\<close> and \<^verbatim>\<open>get_tipo\<close>\<close>
  "lookup_field vm field variavel_semantica origem =
     (if \<not> dict_contains vm variavel_semantica then Inr None
      else case dict_subscript vm variavel_semantica of
          Inl e \<Rightarrow> Inl e
        | Inr by_origin \<Rightarrow>
            if \<not> dict_contains by_origin origem then Inr None
            else (case dict_subscript by_origin origem of
                Inl e \<Rightarrow> Inl e
              | Inr ent \<Rightarrow> Inr (dict_get ent field)))"

definition get_codigo_fisico :: "var_map \<Rightarrow> string \<Rightarrow> string \<Rightarrow> error + string option" where
  "get_codigo_fisico vm variavel_semantica origem =
     lookup_field vm ''codigo'' variavel_semantica origem"

definition get_tipo :: "var_map \<Rightarrow> string \<Rightarrow> string \<Rightarrow> error + string option" where
  "get_tipo vm variavel_semantica origem =
     lookup_field vm ''tipo'' variavel_semantica origem"

definition variavel_existe :: "var_map \<Rightarrow> string \<Rightarrow> string \<Rightarrow> error + bool" where
  "variavel_existe vm variavel_semantica origem =
     (case get_codigo_fisico vm variavel_semantica origem of
        Inl e \<Rightarrow> Inl e
      | Inr codigo \<Rightarrow> Inr (codigo \<noteq> None))"

definition known_origins :: "var_map \<Rightarrow> string list" where
  \<comment> \<open>every second-level key of the table\<close>
  "known_origins vm = remdups (concat (map (\<lambda>(v, by_origin). map fst by_origin) vm))"


definition null_code_table :: var_map where
  \<comment> \<open>a table with a variable that has no physical code in an origin, as the module
      documents it: \<^verbatim>\<open>codigo = None\<close>\<close>
  "null_code_table =
     [(''fumante'', [(''2013'', [(''codigo'', None), (''tipo'', Some ''string'')])])]"


section \<open>dao/sqlite_client.py: the cache store\<close>

text \<open>
  The store is the SQLite file reduced to the one table the module works on
  (\<^verbatim>\<open>PNS_TABLE_NAME\<close>, the default of every \<^verbatim>\<open>table_name\<close> argument): \<open>None\<close> while the
  table does not exist. A table is its declared columns in order, its primary key and its
  rows in rowid order; a row associates column names with cells.

  A cell is a value \<^verbatim>\<open>sqlite3\<close> binds and SQLite stores: \<^verbatim>\<open>None\<close>, an \<^verbatim>\<open>int\<close>, a finite
  \<^verbatim>\<open>float\<close> (its mantissa and binary exponent) or a \<^verbatim>\<open>str\<close>. Python's integers are
  unbounded, SQLite's have 64 bits.
\<close>

datatype cell = Null | IntV int | FloatV int int | TextV string

definition sqlite_integer :: "int \<Rightarrow> bool" where
  "sqlite_integer n = (- (2 ^ 63) \<le> n \<and> n < 2 ^ 63)"

definition binds :: "cell \<Rightarrow> bool" where
  \<comment> \<open>\<^verbatim>\<open>sqlite3\<close> raises \<^verbatim>\<open>OverflowError\<close> when it is given an integer outside the 64 bits\<close>
  "binds v = (case v of IntV n \<Rightarrow> sqlite_integer n | _ \<Rightarrow> True)"

text \<open>
  A value stored in a column is first converted according to the affinity of the
  column's declared type (an integer stored in a \<^verbatim>\<open>TEXT\<close> column becomes its decimal text,
  a float with an integral value stored in an \<^verbatim>\<open>INTEGER\<close> column becomes an integer, and so
  on). The conversion belongs to the engine; it is a parameter of every operation that
  stores bound values, from the declared type and the bound cell to the stored cell, and
  the statements below hold for every conversion.
\<close>

type_synonym affinity = "string \<Rightarrow> cell \<Rightarrow> cell"

record column =
  col_name :: string
  col_type :: string
  col_notnull :: bool
  col_default_now :: bool

type_synonym row = "(string \<times> cell) list"

record table =
  tbl_columns :: "column list"
  tbl_pk :: "string list"
  tbl_rows :: "row list"

type_synonym db = "table option"

definition cell_of :: "row \<Rightarrow> string \<Rightarrow> cell" where
  "cell_of r c = (case map_of r c of None \<Rightarrow> Null | Some v \<Rightarrow> v)"

definition column_names :: "table \<Rightarrow> string list" where
  "column_names t = map col_name (tbl_columns t)"

subsection \<open>Identifiers\<close>

definition lower_char :: "char \<Rightarrow> char" where
  "lower_char c =
     (let n = (of_char c :: nat) in if 65 \<le> n \<and> n \<le> 90 then char_of (n + 32) else c)"

definition lower :: "string \<Rightarrow> string" where
  \<comment> \<open>\<^verbatim>\<open>str.lower\<close> on the ASCII letters\<close>
  "lower s = map lower_char s"

definition sqlite_keywords :: "string list" where
  \<comment> \<open>the keywords of SQLite, some of which its parser rejects as a bare column name\<close>
  "sqlite_keywords =
     [''abort'', ''action'', ''add'', ''after'', ''all'', ''alter'', ''always'', ''analyze'',
      ''and'', ''as'', ''asc'', ''attach'', ''autoincrement'', ''before'', ''begin'',
      ''between'', ''by'', ''cascade'', ''case'', ''cast'', ''check'', ''collate'', ''column'',
      ''commit'', ''conflict'', ''constraint'', ''create'', ''cross'', ''current'',
      ''current_date'', ''current_time'', ''current_timestamp'', ''database'', ''default'',
      ''deferrable'', ''deferred'', ''delete'', ''desc'', ''detach'', ''distinct'', ''do'',
      ''drop'', ''each'', ''else'', ''end'', ''escape'', ''except'', ''exclude'', ''exclusive'',
      ''exists'', ''explain'', ''fail'', ''filter'', ''first'', ''following'', ''for'',
      ''foreign'', ''from'', ''full'', ''generated'', ''glob'', ''group'', ''groups'',
      ''having'', ''if'', ''ignore'', ''immediate'', ''in'', ''index'', ''indexed'',
      ''initially'', ''inner'', ''insert'', ''instead'', ''intersect'', ''into'', ''is'',
      ''isnull'', ''join'', ''key'', ''last'', ''left'', ''like'', ''limit'', ''match'',
      ''materialized'', ''natural'', ''no'', ''not'', ''nothing'', ''notnull'', ''null'',
      ''nulls'', ''of'', ''offset'', ''on'', ''or'', ''order'', ''others'', ''outer'', ''over'',
      ''partition'', ''plan'', ''pragma'', ''preceding'', ''primary'', ''query'', ''raise'',
      ''range'', ''recursive'', ''references'', ''regexp'', ''reindex'', ''release'',
      ''rename'', ''replace'', ''restrict'', ''returning'', ''right'', ''rollback'', ''row'',
      ''rows'', ''savepoint'', ''select'', ''set'', ''table'', ''temp'', ''temporary'',
      ''then'', ''ties'', ''to'', ''transaction'', ''trigger'', ''unbounded'', ''union'',
      ''unique'', ''update'', ''using'', ''vacuum'', ''values'', ''view'', ''virtual'',
      ''when'', ''where'', ''window'', ''with'', ''without'']"

definition digit_char :: "char \<Rightarrow> bool" where
  "digit_char c = (let n = (of_char c :: nat) in 48 \<le> n \<and> n \<le> 57)"

definition identifier_char :: "char \<Rightarrow> bool" where
  \<comment> \<open>an ASCII letter, a digit or the underscore\<close>
  "identifier_char c =
     (let n = (of_char c :: nat)
      in (97 \<le> n \<and> n \<le> 122) \<or> (65 \<le> n \<and> n \<le> 90) \<or> (48 \<le> n \<and> n \<le> 57) \<or> n = 95)"

definition plain_identifier :: "string \<Rightarrow> bool" where
  \<comment> \<open>a name that, written unquoted into a statement, is read as the column of that name:
      letters, digits and underscores, not starting with a digit, and no keyword\<close>
  "plain_identifier s =
     (case s of
        [] \<Rightarrow> False
      | c # cs \<Rightarrow> \<not> digit_char c \<and> list_all identifier_char s
                   \<and> lower s \<notin> set sqlite_keywords)"

subsection \<open>Connections and transactions\<close>

text \<open>
  \<^verbatim>\<open>get_connection\<close> is a context manager: the body runs on a fresh connection and leaves
  it in some state, with or without an exception. A normal exit commits that state; an
  exception rolls the connection back to the state it was opened on and is raised again.
\<close>

definition get_connection :: "(db \<Rightarrow> db \<times> (error + 'a)) \<Rightarrow> db \<Rightarrow> db \<times> (error + 'a)" where
  "get_connection body conn =
     (case body conn of
        (conn', Inl e) \<Rightarrow> (conn, Inl e)
      | (conn', Inr r) \<Rightarrow> (conn', Inr r))"

definition table_exists :: "db \<Rightarrow> bool" where
  "table_exists conn = (conn \<noteq> None)"

definition get_table_columns :: "db \<Rightarrow> string list" where
  \<comment> \<open>\<^verbatim>\<open>PRAGMA table_info\<close> returns no row for a table that does not exist\<close>
  "get_table_columns conn = (case conn of None \<Rightarrow> [] | Some t \<Rightarrow> column_names t)"

subsection \<open>Schema statements\<close>

definition pns_respostas :: table where
  \<comment> \<open>the table of the \<^verbatim>\<open>CREATE TABLE\<close> statement\<close>
  "pns_respostas =
     \<lparr>tbl_columns =
        [\<lparr>col_name = ''origem'', col_type = ''TEXT'', col_notnull = True, col_default_now = False\<rparr>,
         \<lparr>col_name = ''identificador_unidade'', col_type = ''TEXT'', col_notnull = True,
            col_default_now = False\<rparr>,
         \<lparr>col_name = ''created_at'', col_type = ''DATETIME'', col_notnull = False,
            col_default_now = True\<rparr>,
         \<lparr>col_name = ''updated_at'', col_type = ''DATETIME'', col_notnull = False,
            col_default_now = True\<rparr>],
      tbl_pk = [''origem'', ''identificador_unidade''],
      tbl_rows = []\<rparr>"

definition reserved_columns :: "string list" where
  \<comment> \<open>the key and control columns, which \<^verbatim>\<open>ensure_columns_exist\<close> never adds\<close>
  "reserved_columns = [''origem'', ''identificador_unidade'', ''created_at'', ''updated_at'']"

definition timestamp_columns :: "string list" where
  "timestamp_columns = [''created_at'', ''updated_at'']"

definition default_pk_columns :: "string list" where
  "default_pk_columns = [''origem'', ''identificador_unidade'']"

definition new_column :: "string \<Rightarrow> string \<Rightarrow> column" where
  \<comment> \<open>the column of \<^verbatim>\<open>ADD COLUMN name type\<close>: nullable, without default\<close>
  "new_column column_name column_type =
     \<lparr>col_name = column_name, col_type = column_type, col_notnull = False,
      col_default_now = False\<rparr>"

definition sql_create_table_if_not_exists :: "db \<Rightarrow> db \<times> (error + unit)" where
  "sql_create_table_if_not_exists conn =
     (case conn of None \<Rightarrow> (Some pns_respostas, Inr ()) | Some t \<Rightarrow> (Some t, Inr ()))"

definition ensure_table_exists :: "db \<Rightarrow> db \<times> (error + unit)" where
  "ensure_table_exists conn =
     (if table_exists conn then (conn, Inr ())
      else get_connection sql_create_table_if_not_exists conn)"

definition sql_alter_table_add_column :: "string \<Rightarrow> string \<Rightarrow> db \<Rightarrow> db \<times> (error + unit)" where
  \<comment> \<open>\<^verbatim>\<open>ALTER TABLE ... ADD COLUMN name type\<close> with the name written unquoted: it fails on
      a missing table and on a name the table already has (SQLite compares column names
      without regard to case); existing rows read \<open>NULL\<close> in the new column\<close>
  "sql_alter_table_add_column column_name column_type conn =
     (case conn of
        None \<Rightarrow> (conn, Inl OperationalError)
      | Some t \<Rightarrow>
          if \<not> plain_identifier column_name then (conn, Inl OutsideModel)
          else if lower column_name \<in> set (map lower (column_names t))
            then (conn, Inl OperationalError)
          else (Some (t\<lparr>tbl_columns := tbl_columns t @ [new_column column_name column_type],
                         tbl_rows := map (AList.update column_name Null) (tbl_rows t)\<rparr>),
                Inr ()))"

definition add_column_if_not_exists :: "string \<Rightarrow> string \<Rightarrow> db \<Rightarrow> db \<times> (error + unit)" where
  "add_column_if_not_exists column_name column_type conn =
     (let existing_columns = get_table_columns conn in
      if column_name \<in> set existing_columns then (conn, Inr ())
      else get_connection (sql_alter_table_add_column column_name column_type) conn)"

definition integer_keywords :: "string list" where
  "integer_keywords = [''idade'', ''anos'', ''filhos'', ''count'']"

definition real_keywords :: "string list" where
  "real_keywords = [''peso'', ''renda'', ''per_capita'']"

definition infer_col_type :: "string \<Rightarrow> string" where
  \<comment> \<open>the \<^verbatim>\<open>if/elif\<close> chain of \<^verbatim>\<open>ensure_columns_exist\<close>; \<open>sublist k s\<close> is \<^verbatim>\<open>k in s\<close>\<close>
  "infer_col_type col_name' =
     (if suffix ''_at'' col_name' \<or> col_name' \<in> set timestamp_columns
        then ''DATETIME''
      else if list_ex (\<lambda>keyword. sublist keyword (lower col_name')) integer_keywords
        then ''INTEGER''
      else if list_ex (\<lambda>keyword. sublist keyword (lower col_name')) real_keywords
        then ''REAL''
      else ''TEXT'')"

fun ensure_columns_loop :: "string list \<Rightarrow> string list \<Rightarrow> db \<Rightarrow> db \<times> (error + unit)" where
  \<comment> \<open>the \<^verbatim>\<open>for\<close> loop; \<open>existing_columns\<close> is read once, before the loop\<close>
  "ensure_columns_loop existing_columns [] conn = (conn, Inr ())"
| "ensure_columns_loop existing_columns (c # cs) conn =
     (if c \<in> set existing_columns then ensure_columns_loop existing_columns cs conn
      else if c \<in> set reserved_columns
        then ensure_columns_loop existing_columns cs conn
      else (case add_column_if_not_exists c (infer_col_type c) conn of
              (conn', Inl e) \<Rightarrow> (conn', Inl e)
            | (conn', Inr u) \<Rightarrow> ensure_columns_loop existing_columns cs conn'))"

definition ensure_columns_exist :: "string list \<Rightarrow> db \<Rightarrow> db \<times> (error + unit)" where
  "ensure_columns_exist column_names' conn =
     ensure_columns_loop (get_table_columns conn) column_names' conn"

subsection \<open>The upsert statement\<close>

text \<open>
  A \<^verbatim>\<open>DataFrame\<close> is its column labels and its rows. A frame is well formed when its
  labels are distinct plain identifiers, every row holds one cell per label, and, if it
  has rows and columns to write, one of these columns holds a text: then
  \<^verbatim>\<open>df[cols].values\<close> is an array of objects and \<^verbatim>\<open>tolist\<close> returns every cell as the
  frame has it (a selection of numeric columns only is first converted to one common
  numeric type). The statements about \<^verbatim>\<open>upsert_rows\<close> are about well-formed frames.
\<close>

record dataframe =
  df_columns :: "string list"
  df_values :: "cell list list"

definition is_text :: "cell \<Rightarrow> bool" where
  "is_text v = (case v of TextV s \<Rightarrow> True | _ \<Rightarrow> False)"

definition keeps_cells :: "dataframe \<Rightarrow> bool" where
  \<comment> \<open>no row, no column to write, or a text in a column to write\<close>
  "keeps_cells df =
     (df_values df = []
      \<or> list_all (\<lambda>c. c \<in> set timestamp_columns) (df_columns df)
      \<or> list_ex (\<lambda>r. list_ex (\<lambda>(c, v). c \<notin> set timestamp_columns \<and> is_text v)
                         (zip (df_columns df) r)) (df_values df))"

definition well_formed :: "dataframe \<Rightarrow> bool" where
  "well_formed df =
     (distinct (df_columns df)
      \<and> list_all plain_identifier (df_columns df)
      \<and> list_all (\<lambda>r. length r = length (df_columns df)) (df_values df)
      \<and> keeps_cells df)"

definition df_empty :: "dataframe \<Rightarrow> bool" where
  \<comment> \<open>\<^verbatim>\<open>df.empty\<close>: an axis of length zero\<close>
  "df_empty df = (df_columns df = [] \<or> df_values df = [])"

definition df_select :: "dataframe \<Rightarrow> string list \<Rightarrow> cell list list" where
  \<comment> \<open>\<^verbatim>\<open>df[cols].values.tolist()\<close>: the named columns of every row, in the order asked\<close>
  "df_select df cols =
     map (\<lambda>r. map (\<lambda>c. cell_of (zip (df_columns df) r) c) cols) (df_values df)"

text \<open>
  One execution of the statement evaluates \<^verbatim>\<open>CURRENT_TIMESTAMP\<close> once, to the text \<open>now\<close>
  (of the form \<^verbatim>\<open>YYYY-MM-DD HH:MM:SS\<close>, which no affinity converts); \<^verbatim>\<open>executemany\<close> executes
  the statement once per row, each execution at its own time.
\<close>

definition insert_row :: "string \<Rightarrow> affinity \<Rightarrow> string list \<Rightarrow> cell list \<Rightarrow> table \<Rightarrow> row" where
  \<comment> \<open>the row \<^verbatim>\<open>INSERT\<close> proposes (\<^verbatim>\<open>excluded\<close> in the conflict clause): the bound values,
      converted, for the listed columns, \<^verbatim>\<open>CURRENT_TIMESTAMP\<close> for both timestamps, defaults
      elsewhere\<close>
  "insert_row now conv ins_cols vals t =
     map (\<lambda>col. (col_name col,
                  case map_of (zip ins_cols vals) (col_name col) of
                    Some v \<Rightarrow> conv (col_type col) v
                  | None \<Rightarrow> if col_name col \<in> set timestamp_columns \<or> col_default_now col
                             then TextV now else Null))
         (tbl_columns t)"

definition key_of :: "row \<Rightarrow> cell \<times> cell" where
  "key_of r = (cell_of r ''origem'', cell_of r ''identificador_unidade'')"

definition conflicts :: "row \<Rightarrow> row \<Rightarrow> bool" where
  \<comment> \<open>the uniqueness conflict of \<^verbatim>\<open>ON CONFLICT(origem, identificador_unidade)\<close>, between
      the stored key of a row and the key the proposed row would be stored with; a \<open>NULL\<close>
      never conflicts\<close>
  "conflicts new r =
     (key_of r = key_of new \<and> fst (key_of new) \<noteq> Null \<and> snd (key_of new) \<noteq> Null)"

definition do_update :: "string \<Rightarrow> string list \<Rightarrow> row \<Rightarrow> row \<Rightarrow> row" where
  \<comment> \<open>\<^verbatim>\<open>DO UPDATE SET c = excluded.c, ..., updated_at = CURRENT_TIMESTAMP\<close>\<close>
  "do_update now upd_cols new r =
     AList.update ''updated_at'' (TextV now)
       (fold (\<lambda>c r'. AList.update c (cell_of new c) r') upd_cols r)"

definition sql_upsert_row :: "string \<Rightarrow> affinity \<Rightarrow> string list \<Rightarrow> string list \<Rightarrow> cell list
    \<Rightarrow> table \<Rightarrow> error + table" where
  \<comment> \<open>one execution of the statement: the values are bound, \<^verbatim>\<open>NOT NULL\<close> is checked on the
      proposed row, and the row is merged into the rows it conflicts with or appended\<close>
  "sql_upsert_row now conv ins_cols upd_cols vals t =
     (if list_ex (\<lambda>v. \<not> binds v) vals then Inl OverflowError
      else let new = insert_row now conv ins_cols vals t in
        if list_ex (\<lambda>col. col_notnull col \<and> cell_of new (col_name col) = Null) (tbl_columns t)
          then Inl IntegrityError
        else if list_ex (conflicts new) (tbl_rows t)
          then Inr (t\<lparr>tbl_rows := map (\<lambda>r. if conflicts new r then do_update now upd_cols new r
                                             else r) (tbl_rows t)\<rparr>)
        else Inr (t\<lparr>tbl_rows := tbl_rows t @ [new]\<rparr>))"

definition statement_compiles :: "string list \<Rightarrow> string list \<Rightarrow> table \<Rightarrow> bool" where
  \<comment> \<open>the statement is rejected when the column list is empty (a syntax error), when it
      names a column the table lacks, or when the conflict target is not the key\<close>
  "statement_compiles ins_cols upd_cols t =
     (ins_cols \<noteq> []
      \<and> list_all (\<lambda>c. c \<in> set (column_names t)) (ins_cols @ timestamp_columns @ upd_cols)
      \<and> set (tbl_pk t) = set default_pk_columns)"

fun executemany :: "(nat \<Rightarrow> string) \<Rightarrow> affinity \<Rightarrow> nat \<Rightarrow> string list \<Rightarrow> string list
    \<Rightarrow> cell list list \<Rightarrow> table \<Rightarrow> table \<times> error option" where
  \<comment> \<open>the rows in order from the \<open>i\<close>-th on, the \<open>i\<close>-th at the time \<open>clock i\<close>; the first
      exception ends the run, in the table the rows before it have written\<close>
  "executemany clock conv i ins_cols upd_cols [] t = (t, None)"
| "executemany clock conv i ins_cols upd_cols (vals # rest) t =
     (case sql_upsert_row (clock i) conv ins_cols upd_cols vals t of
        Inl e \<Rightarrow> (t, Some e)
      | Inr t' \<Rightarrow> executemany clock conv (Suc i) ins_cols upd_cols rest t')"

definition upsert_body :: "(nat \<Rightarrow> string) \<Rightarrow> affinity \<Rightarrow> string list \<Rightarrow> string list
    \<Rightarrow> cell list list \<Rightarrow> db \<Rightarrow> db \<times> (error + nat)" where
  \<comment> \<open>the body of the \<^verbatim>\<open>with\<close> block; \<^verbatim>\<open>cursor.rowcount\<close> counts one per executed row\<close>
  "upsert_body clock conv ins_cols upd_cols vals conn =
     (case conn of
        None \<Rightarrow> (conn, Inl OperationalError)
      | Some t \<Rightarrow>
          if \<not> list_all plain_identifier ins_cols then (conn, Inl OutsideModel)
          else if \<not> statement_compiles ins_cols upd_cols t then (conn, Inl OperationalError)
          else (case executemany clock conv 0 ins_cols upd_cols vals t of
                  (t', Some e) \<Rightarrow> (Some t', Inl e)
                | (t', None) \<Rightarrow> (Some t', Inr (length vals))))"

text \<open>
  \<^verbatim>\<open>upsert_rows\<close> returns nothing; what it tells the caller is an exception or the record
  it logs before returning: the warning for an empty frame, or the number of rows written.
  \<open>clock\<close> gives the value of \<^verbatim>\<open>CURRENT_TIMESTAMP\<close> at each execution of the statement
  during the call.
\<close>

datatype logged = EmptyBatch | RowsAffected nat

definition columns_to_insert :: "dataframe \<Rightarrow> string list" where
  "columns_to_insert df =
     filter (\<lambda>col. col \<notin> set timestamp_columns) (df_columns df)"

definition pk_or_default :: "string list option \<Rightarrow> string list" where
  \<comment> \<open>\<^verbatim>\<open>if pk_columns is None: pk_columns = ['origem', 'identificador_unidade']\<close>\<close>
  "pk_or_default pk_columns =
     (case pk_columns of None \<Rightarrow> default_pk_columns | Some p \<Rightarrow> p)"

definition missing_pk :: "dataframe \<Rightarrow> string list \<Rightarrow> string list" where
  "missing_pk df pk_columns = filter (\<lambda>col. col \<notin> set (df_columns df)) pk_columns"

definition update_columns :: "dataframe \<Rightarrow> string list \<Rightarrow> string list" where
  "update_columns df pk_columns =
     filter (\<lambda>col. col \<notin> set pk_columns) (columns_to_insert df)"

definition upsert_rows :: "(nat \<Rightarrow> string) \<Rightarrow> affinity \<Rightarrow> dataframe \<Rightarrow> string list option \<Rightarrow> db
    \<Rightarrow> db \<times> (error + logged)" where
  "upsert_rows clock conv df pk_columns conn =
     (if df_empty df then (conn, Inr EmptyBatch)
      else if missing_pk df (pk_or_default pk_columns) \<noteq> []
        then (conn, Inl (ValueError (missing_pk df (pk_or_default pk_columns))))
      else (case ensure_columns_exist (df_columns df) conn of
              (conn1, Inl e) \<Rightarrow> (conn1, Inl e)
            | (conn1, Inr u) \<Rightarrow>
                (case get_connection
                        (upsert_body clock conv (columns_to_insert df)
                           (update_columns df (pk_or_default pk_columns))
                           (df_select df (columns_to_insert df))) conn1 of
                   (conn2, Inl e) \<Rightarrow> (conn2, Inl e)
                 | (conn2, Inr n) \<Rightarrow> (conn2, Inr (RowsAffected n)))))"

subsection \<open>Reading the store\<close>

definition db_rows :: "db \<Rightarrow> row list" where
  "db_rows conn = (case conn of None \<Rightarrow> [] | Some t \<Rightarrow> tbl_rows t)"

definition db_schema :: "db \<Rightarrow> column list" where
  "db_schema conn = (case conn of None \<Rightarrow> [] | Some t \<Rightarrow> tbl_columns t)"

definition cell_at :: "db \<Rightarrow> nat \<Rightarrow> string \<Rightarrow> cell" where
  \<comment> \<open>the cell of the \<open>i\<close>-th stored row, read below \<open>length (db_rows conn)\<close> only\<close>
  "cell_at conn i c = cell_of (db_rows conn ! i) c"

definition type_of_column :: "db \<Rightarrow> string \<Rightarrow> string" where
  \<comment> \<open>the declared type of a column of the store\<close>
  "type_of_column conn c =
     (case find (\<lambda>col. col_name col = c) (db_schema conn) of
        None \<Rightarrow> [] | Some col \<Rightarrow> col_type col)"

definition stored_key :: "affinity \<Rightarrow> db \<Rightarrow> dataframe \<Rightarrow> nat \<Rightarrow> cell \<times> cell" where
  \<comment> \<open>the key the \<open>j\<close>-th row of a frame is stored under: its two key cells, converted for
      the key columns of the store\<close>
  "stored_key conv conn df j =
     (conv (type_of_column conn ''origem'') (cell_of (zip (df_columns df) (df_values df ! j)) ''origem''),
      conv (type_of_column conn ''identificador_unidade'')
        (cell_of (zip (df_columns df) (df_values df ! j)) ''identificador_unidade''))"

definition drop_timestamps :: "dataframe \<Rightarrow> dataframe" where
  \<comment> \<open>the same frame without its \<^verbatim>\<open>created_at\<close> and \<^verbatim>\<open>updated_at\<close> columns\<close>
  "drop_timestamps df =
     \<lparr>df_columns = columns_to_insert df, df_values = df_select df (columns_to_insert df)\<rparr>"

fun upsert_calls :: "affinity \<Rightarrow> ((nat \<Rightarrow> string) \<times> dataframe \<times> string list option) list \<Rightarrow> db
    \<Rightarrow> db" where
  \<comment> \<open>a caller making one \<^verbatim>\<open>upsert_rows\<close> call after another, whatever each call reports\<close>
  "upsert_calls conv [] conn = conn"
| "upsert_calls conv ((clock, df, pk) # calls) conn =
     upsert_calls conv calls (fst (upsert_rows clock conv df pk conn))"

text \<open>
  Three relations between the rows before and after a step, used to state what a step
  leaves alone, and the declaration the key columns have in the table of the module.
\<close>

definition frame :: "string set \<Rightarrow> row list \<Rightarrow> row list \<Rightarrow> bool" where
  \<comment> \<open>every row of \<open>rs\<close> is still at its place in \<open>rs'\<close> and reads the same outside the
      columns \<open>S\<close>\<close>
  "frame S rs rs' =
     (length rs \<le> length rs'
      \<and> (\<forall>i<length rs. \<forall>c. c \<notin> S \<longrightarrow> cell_of (rs' ! i) c = cell_of (rs ! i) c))"

definition stamped :: "string set \<Rightarrow> string \<Rightarrow> row list \<Rightarrow> row list \<Rightarrow> bool" where
  \<comment> \<open>in the column \<open>c\<close> every row of \<open>rs'\<close> reads one of the times \<open>T\<close> or what it read in
      \<open>rs\<close>\<close>
  "stamped T c rs rs' =
     (\<forall>i<length rs'. (\<exists>s\<in>T. cell_of (rs' ! i) c = TextV s)
                      \<or> (i < length rs \<and> cell_of (rs' ! i) c = cell_of (rs ! i) c))"

definition touched :: "cell \<times> cell \<Rightarrow> string set \<Rightarrow> row list \<Rightarrow> bool" where
  \<comment> \<open>the key \<open>k\<close> is stored, and every row stored under it was last written at one of the
      times \<open>T\<close>\<close>
  "touched k T rs =
     ((\<exists>r\<in>set rs. key_of r = k)
      \<and> (\<forall>r\<in>set rs. key_of r = k \<longrightarrow> (\<exists>s\<in>T. cell_of r ''updated_at'' = TextV s)))"

definition key_columns_not_null :: "db \<Rightarrow> bool" where
  \<comment> \<open>both key columns are declared \<^verbatim>\<open>NOT NULL\<close> and without default, as \<^verbatim>\<open>CREATE TABLE\<close>
      declares them\<close>
  "key_columns_not_null conn =
     list_all (\<lambda>k. case find (\<lambda>col. col_name col = k) (db_schema conn) of
                      None \<Rightarrow> False
                    | Some col \<Rightarrow> col_notnull col \<and> \<not> col_default_now col)
       default_pk_columns"

subsection \<open>Scenarios\<close>

text \<open>
  The stores and batches of the end-to-end scenario of the specification, with the
  variations the statements below are tried on.
\<close>

fun digits :: "nat \<Rightarrow> string" where
  \<comment> \<open>the decimal digits of a number\<close>
  "digits n =
     (if n < 10 then [char_of (48 + n)]
      else digits (n div 10) @ [char_of (48 + n mod 10)])"

declare digits.simps [simp del]

definition decimal :: "int \<Rightarrow> string" where
  "decimal n = (if n < 0 then CHR ''-'' # digits (nat (- n)) else digits (nat n))"

definition scenario_affinity :: affinity where
  \<comment> \<open>the conversion of SQLite on the cells the scenarios store: text in a \<^verbatim>\<open>TEXT\<close>
      column, an integer in an \<^verbatim>\<open>INTEGER\<close> column and a float in a \<^verbatim>\<open>REAL\<close> column are
      stored as they are bound, and an integer in a \<^verbatim>\<open>TEXT\<close> column is stored as its
      decimal text\<close>
  "scenario_affinity ty v =
     (if ty = ''TEXT'' then (case v of IntV n \<Rightarrow> TextV (decimal n) | _ \<Rightarrow> v) else v)"

definition clock_of :: "string list \<Rightarrow> nat \<Rightarrow> string" where
  \<comment> \<open>the clock of a call whose statements are executed at the given times\<close>
  "clock_of ts i = (case drop i ts of [] \<Rightarrow> [] | s # rest \<Rightarrow> s)"

definition first_call :: "nat \<Rightarrow> string" where
  "first_call = clock_of [''2024-01-01 10:00:00'', ''2024-01-01 10:00:01'']"

definition second_call :: "nat \<Rightarrow> string" where
  "second_call = clock_of [''2024-01-02 09:30:00'', ''2024-01-02 09:30:01'']"

definition third_call :: "nat \<Rightarrow> string" where
  "third_call = clock_of [''2024-01-03 08:00:00'']"

definition scenario_first_batch :: dataframe where
  "scenario_first_batch =
     \<lparr>df_columns = [''origem'', ''identificador_unidade'', ''idade''],
      df_values = [[TextV ''2013'', TextV ''UPA001'', IntV 30],
                   [TextV ''2019'', TextV ''UPA002'', IntV 28]]\<rparr>"

definition scenario_second_batch :: dataframe where
  "scenario_second_batch =
     \<lparr>df_columns = [''origem'', ''identificador_unidade'', ''idade''],
      df_values = [[TextV ''2013'', TextV ''UPA001'', IntV 31]]\<rparr>"

definition scenario_store :: db where
  \<comment> \<open>the store after \<^verbatim>\<open>ensure_table_exists\<close> and the first batch\<close>
  "scenario_store =
     fst (upsert_rows first_call scenario_affinity scenario_first_batch None
            (fst (ensure_table_exists None)))"

definition null_key_batch :: dataframe where
  \<comment> \<open>a batch with a new column; its first row is a new unit, its second has no
      \<^verbatim>\<open>origem\<close>\<close>
  "null_key_batch =
     \<lparr>df_columns = [''origem'', ''identificador_unidade'', ''sexo''],
      df_values = [[TextV ''2019'', TextV ''UPA010'', TextV ''1''],
                   [Null, TextV ''UPA003'', TextV ''2'']]\<rparr>"

definition other_column_batch :: dataframe where
  \<comment> \<open>the stored unit \<open>UPA001\<close> again, with a column the store lacks and without \<open>idade\<close>\<close>
  "other_column_batch =
     \<lparr>df_columns = [''origem'', ''identificador_unidade'', ''sexo''],
      df_values = [[TextV ''2013'', TextV ''UPA001'', TextV ''2'']]\<rparr>"

definition scenario_with_sexo :: table where
  \<comment> \<open>the table of the scenario store once the column \<open>sexo\<close> is added\<close>
  "scenario_with_sexo =
     the (fst (ensure_columns_exist [''origem'', ''identificador_unidade'', ''sexo'']
                 scenario_store))"

definition renda_batch :: dataframe where
  \<comment> \<open>a batch with the column \<open>renda_per_capita\<close>, which the scenario store lacks; the
      value is 1500.5\<close>
  "renda_batch =
     \<lparr>df_columns = [''origem'', ''identificador_unidade'', ''renda_per_capita''],
      df_values = [[TextV ''2013'', TextV ''UPA001'', FloatV 3001 (- 1)]]\<rparr>"

definition stamped_batch :: dataframe where
  \<comment> \<open>the second batch of the scenario with both timestamp columns supplied by the caller\<close>
  "stamped_batch =
     \<lparr>df_columns = [''created_at'', ''origem'', ''identificador_unidade'', ''updated_at'',
                     ''idade''],
      df_values = [[TextV ''1999-12-31 00:00:00'', TextV ''2013'', TextV ''UPA001'',
                    TextV ''1999-12-31 00:00:00'', IntV 31]]\<rparr>"

definition timestamp_key :: "string list option" where
  \<comment> \<open>key columns, asked for by the caller, that name a timestamp column\<close>
  "timestamp_key = Some [''origem'', ''identificador_unidade'', ''created_at'']"

definition timestamp_only_batch :: dataframe where
  "timestamp_only_batch =
     \<lparr>df_columns = [''created_at''], df_values = [[TextV ''1999-12-31 00:00:00'']]\<rparr>"

definition mixed_batch :: dataframe where
  \<comment> \<open>one unit the scenario store does not have yet, and one it has\<close>
  "mixed_batch =
     \<lparr>df_columns = [''origem'', ''identificador_unidade'', ''idade''],
      df_values = [[TextV ''2019'', TextV ''UPA009'', IntV 40],
                   [TextV ''2013'', TextV ''UPA001'', IntV 32]]\<rparr>"

definition scenario_after_mixed :: db where
  "scenario_after_mixed =
     fst (upsert_rows second_call scenario_affinity mixed_batch None scenario_store)"

definition integer_key_batch :: dataframe where
  \<comment> \<open>the stored unit \<open>UPA001\<close> of 2013, with the origin given as a number\<close>
  "integer_key_batch =
     \<lparr>df_columns = [''origem'', ''identificador_unidade'', ''idade''],
      df_values = [[IntV 2013, TextV ''UPA001'', IntV 33]]\<rparr>"


section \<open>Facts about the registry\<close>

lemma dict_subscript_contains:
  "dict_contains d k \<Longrightarrow> \<exists>v. dict_subscript d k = Inr v"
  unfolding dict_contains_def dict_subscript_def
  by (cases "map_of d k") (auto simp: map_of_eq_None_iff)

lemma lookup_field_total: "\<exists>r. lookup_field vm f v orig = Inr r"
proof (cases "dict_contains vm v")
  case False
  then show ?thesis unfolding lookup_field_def by simp
next
  case True
  from dict_subscript_contains [OF True] obtain bo where bo: "dict_subscript vm v = Inr bo" ..
  show ?thesis
  proof (cases "dict_contains bo orig")
    case False
    show ?thesis unfolding lookup_field_def using True bo False by simp
  next
    case inner: True
    from dict_subscript_contains [OF inner] obtain ent where ent: "dict_subscript bo orig = Inr ent" ..
    show ?thesis unfolding lookup_field_def using True bo inner ent by simp
  qed
qed

lemma lookup_field_unknown_name:
  "\<not> dict_contains vm v \<Longrightarrow> lookup_field vm f v orig = Inr None"
  unfolding lookup_field_def by simp

lemma lookup_field_unknown_origin:
  assumes "dict_subscript vm v = Inr bo" and "\<not> dict_contains bo orig"
  shows "lookup_field vm f v orig = Inr None"
  unfolding lookup_field_def using assms by simp

lemma lookup_field_null:
  assumes "dict_subscript vm v = Inr bo" and "dict_subscript bo orig = Inr ent"
    and "dict_get ent f = None"
  shows "lookup_field vm f v orig = Inr None"
  unfolding lookup_field_def using assms by simp

lemma dict_subscript_Inr_contains:
  "dict_subscript d k = Inr v \<Longrightarrow> dict_contains d k"
  unfolding dict_contains_def dict_subscript_def
  by (cases "map_of d k") (auto dest: map_of_SomeD intro: rev_image_eqI)

lemma lookup_field_entry:
  assumes "dict_subscript vm v = Inr bo" and "dict_subscript bo orig = Inr ent"
  shows "lookup_field vm f v orig = Inr (dict_get ent f)"
  unfolding lookup_field_def
  using assms dict_subscript_Inr_contains [OF assms(1)] dict_subscript_Inr_contains [OF assms(2)]
  by simp

text \<open>
  C5, as the claim states it, fails for \<open>get_tipo\<close>: where the mapped code is \<open>None\<close>,
  \<open>get_codigo_fisico\<close> returns the absent value but \<open>get_tipo\<close> returns the declared
  type of the entry.
\<close>

theorem declared_type_on_null_code_counterexample:
  "get_codigo_fisico null_code_table ''fumante'' ''2013'' = Inr None
   \<and> get_tipo null_code_table ''fumante'' ''2013'' = Inr (Some ''string'')
   \<and> get_tipo null_code_table ''fumante'' ''2013'' \<noteq> Inr None"
  by code_simp

text \<open>
  C5, amended. Whatever the table holds, \<open>get_codigo_fisico\<close> and \<open>get_tipo\<close> return a
  value for every pair of a semantic name and an origin and never raise. Both return the
  absent value \<open>None\<close> for an unknown name and for an origin the name has no entry for.
  Where there is an entry, each returns its own field of it: \<open>get_codigo_fisico\<close> is
  absent when the code is \<open>None\<close>, \<open>get_tipo\<close> is absent when the type is \<open>None\<close>, and a
  \<open>None\<close> code leaves \<open>get_tipo\<close> at the declared type. \<open>variavel_existe\<close> is true exactly
  when \<open>get_codigo_fisico\<close> returns a code.
\<close>

theorem lookups_total_and_exists_iff_code:
  "(\<exists>r. get_codigo_fisico vm v orig = Inr r)
   \<and> (\<exists>r. get_tipo vm v orig = Inr r)
   \<and> (\<not> dict_contains vm v \<longrightarrow>
        get_codigo_fisico vm v orig = Inr None \<and> get_tipo vm v orig = Inr None)
   \<and> (\<forall>bo. dict_subscript vm v = Inr bo \<and> \<not> dict_contains bo orig \<longrightarrow>
        get_codigo_fisico vm v orig = Inr None \<and> get_tipo vm v orig = Inr None)
   \<and> (\<forall>bo ent. dict_subscript vm v = Inr bo \<and> dict_subscript bo orig = Inr ent \<longrightarrow>
        get_codigo_fisico vm v orig = Inr (dict_get ent ''codigo'')
        \<and> get_tipo vm v orig = Inr (dict_get ent ''tipo''))
   \<and> (\<forall>bo ent. dict_subscript vm v = Inr bo \<and> dict_subscript bo orig = Inr ent
          \<and> dict_get ent ''codigo'' = None \<longrightarrow>
        get_codigo_fisico vm v orig = Inr None
        \<and> get_tipo vm v orig = Inr (dict_get ent ''tipo''))
   \<and> (\<forall>bo ent. dict_subscript vm v = Inr bo \<and> dict_subscript bo orig = Inr ent
          \<and> dict_get ent ''tipo'' = None \<longrightarrow>
        get_tipo vm v orig = Inr None)
   \<and> (\<exists>b. variavel_existe vm v orig = Inr b
          \<and> (b \<longleftrightarrow> (\<exists>c. get_codigo_fisico vm v orig = Inr (Some c))))"
proof (intro conjI allI impI)
  show "\<exists>r. get_codigo_fisico vm v orig = Inr r"
    unfolding get_codigo_fisico_def by (rule lookup_field_total)
  show "\<exists>r. get_tipo vm v orig = Inr r"
    unfolding get_tipo_def by (rule lookup_field_total)
  show "get_codigo_fisico vm v orig = Inr None" if "\<not> dict_contains vm v"
    unfolding get_codigo_fisico_def using that by (rule lookup_field_unknown_name)
  show "get_tipo vm v orig = Inr None" if "\<not> dict_contains vm v"
    unfolding get_tipo_def using that by (rule lookup_field_unknown_name)
  show "get_codigo_fisico vm v orig = Inr None"
    if "dict_subscript vm v = Inr bo \<and> \<not> dict_contains bo orig" for bo
    unfolding get_codigo_fisico_def using that by (simp add: lookup_field_unknown_origin)
  show "get_tipo vm v orig = Inr None"
    if "dict_subscript vm v = Inr bo \<and> \<not> dict_contains bo orig" for bo
    unfolding get_tipo_def using that by (simp add: lookup_field_unknown_origin)
  show "get_codigo_fisico vm v orig = Inr (dict_get ent ''codigo'')"
    if "dict_subscript vm v = Inr bo \<and> dict_subscript bo orig = Inr ent" for bo ent
    unfolding get_codigo_fisico_def using that by (simp add: lookup_field_entry)
  show "get_tipo vm v orig = Inr (dict_get ent ''tipo'')"
    if "dict_subscript vm v = Inr bo \<and> dict_subscript bo orig = Inr ent" for bo ent
    unfolding get_tipo_def using that by (simp add: lookup_field_entry)
  show "get_codigo_fisico vm v orig = Inr None"
    if "dict_subscript vm v = Inr bo \<and> dict_subscript bo orig = Inr ent
          \<and> dict_get ent ''codigo'' = None" for bo ent
    unfolding get_codigo_fisico_def using that by (simp add: lookup_field_null)
  show "get_tipo vm v orig = Inr (dict_get ent ''tipo'')"
    if "dict_subscript vm v = Inr bo \<and> dict_subscript bo orig = Inr ent
          \<and> dict_get ent ''codigo'' = None" for bo ent
    unfolding get_tipo_def using that by (simp add: lookup_field_entry)
  show "get_tipo vm v orig = Inr None"
    if "dict_subscript vm v = Inr bo \<and> dict_subscript bo orig = Inr ent
          \<and> dict_get ent ''tipo'' = None" for bo ent
    unfolding get_tipo_def using that by (simp add: lookup_field_null)
  obtain r where r: "get_codigo_fisico vm v orig = Inr r"
    unfolding get_codigo_fisico_def using lookup_field_total by blast
  show "\<exists>b. variavel_existe vm v orig = Inr b
          \<and> (b \<longleftrightarrow> (\<exists>c. get_codigo_fisico vm v orig = Inr (Some c)))"
    unfolding variavel_existe_def using r by simp
qed

theorem lookups_total_and_exists_iff_code_witness:
  "(\<not> dict_contains VAR_MAP ''altura''
      \<and> get_codigo_fisico VAR_MAP ''altura'' ''2013'' = Inr None
      \<and> get_tipo VAR_MAP ''altura'' ''2013'' = Inr None)
   \<and> (dict_subscript VAR_MAP ''sexo'' = Inr (both_years ''c006'' ''string'')
      \<and> \<not> dict_contains (both_years ''c006'' ''string'') ''2021''
      \<and> get_codigo_fisico VAR_MAP ''sexo'' ''2021'' = Inr None
      \<and> variavel_existe VAR_MAP ''sexo'' ''2021'' = Inr False)
   \<and> (dict_subscript null_code_table ''fumante''
          = Inr [(''2013'', [(''codigo'', None), (''tipo'', Some ''string'')])]
      \<and> get_codigo_fisico null_code_table ''fumante'' ''2013'' = Inr None
      \<and> get_tipo null_code_table ''fumante'' ''2013'' = Inr (Some ''string''))
   \<and> (get_codigo_fisico VAR_MAP ''sexo'' ''2019'' = Inr (Some ''c006'')
      \<and> variavel_existe VAR_MAP ''sexo'' ''2019'' = Inr True)"
proof -
  let ?ent = "[(''codigo'', None::string option), (''tipo'', Some ''string'')]"
  have h1: "\<not> dict_contains VAR_MAP ''altura''" by code_simp
  have h2: "dict_subscript VAR_MAP ''sexo'' = Inr (both_years ''c006'' ''string'')
     \<and> \<not> dict_contains (both_years ''c006'' ''string'') ''2021''" by code_simp
  have h3: "dict_subscript null_code_table ''fumante'' = Inr [(''2013'', ?ent)]
     \<and> dict_subscript [(''2013'', ?ent)] ''2013'' = Inr ?ent
     \<and> dict_get ?ent ''codigo'' = None"
    by code_simp
  have h3': "dict_get ?ent ''tipo'' = Some ''string''" by code_simp
  have h4: "get_codigo_fisico VAR_MAP ''sexo'' ''2019'' = Inr (Some ''c006'')" by code_simp
  from lookups_total_and_exists_iff_code [of VAR_MAP "''altura''" "''2013''"] h1
  have c1: "get_codigo_fisico VAR_MAP ''altura'' ''2013'' = Inr None
      \<and> get_tipo VAR_MAP ''altura'' ''2013'' = Inr None" by blast
  from lookups_total_and_exists_iff_code [of VAR_MAP "''sexo''" "''2021''"] h2
  have c2: "get_codigo_fisico VAR_MAP ''sexo'' ''2021'' = Inr None" by blast
  from lookups_total_and_exists_iff_code [of VAR_MAP "''sexo''" "''2021''"] c2
  have c2': "variavel_existe VAR_MAP ''sexo'' ''2021'' = Inr False" by auto
  from lookups_total_and_exists_iff_code [of null_code_table "''fumante''" "''2013''"] h3
  have c3: "get_codigo_fisico null_code_table ''fumante'' ''2013'' = Inr None
      \<and> get_tipo null_code_table ''fumante'' ''2013'' = Inr (dict_get ?ent ''tipo'')" by blast
  from lookups_total_and_exists_iff_code [of VAR_MAP "''sexo''" "''2019''"] h4
  have c4: "variavel_existe VAR_MAP ''sexo'' ''2019'' = Inr True" by auto
  show ?thesis using h1 h2 h3 c1 c2 c2' c3 h3' h4 c4 by simp
qed

lemma known_origins_VAR_MAP: "known_origins VAR_MAP = [''2013'', ''2019'']"
  by code_simp

lemma unit_identifier_2013:
  "variavel_existe VAR_MAP ''identificador_unidade'' ''2013'' = Inr True"
  by code_simp

lemma unit_identifier_2019:
  "variavel_existe VAR_MAP ''identificador_unidade'' ''2019'' = Inr True"
  by code_simp

lemma origem_not_registered: "\<not> dict_contains VAR_MAP ''origem''"
  by code_simp

lemma origem_never_exists: "variavel_existe VAR_MAP ''origem'' orig = Inr False"
  unfolding variavel_existe_def get_codigo_fisico_def
  using lookup_field_unknown_name [OF origem_not_registered] by simp

text \<open>
  C9, as the claim states it, fails: the origin tag \<open>origem\<close> is no entry of \<open>VAR_MAP\<close>
  (it is the second-level key of the table), so \<open>variavel_existe\<close> is false for it in a
  known origin.
\<close>

theorem origin_tag_has_no_entry_counterexample:
  "''2013'' \<in> set (known_origins VAR_MAP)
   \<and> variavel_existe VAR_MAP ''origem'' ''2013'' \<noteq> Inr True"
  using origem_never_exists [of "''2013''"] known_origins_VAR_MAP by simp

text \<open>
  C9, amended. For every origin known to the registry the unit identifier
  \<open>identificador_unidade\<close> has an entry with a physical code (\<open>variavel_existe\<close> is
  true); the origin tag \<open>origem\<close> has no entry, and \<open>variavel_existe\<close> is false for it in
  every origin.
\<close>

theorem unit_identifier_mapped_in_every_origin:
  "\<forall>orig \<in> set (known_origins VAR_MAP).
      variavel_existe VAR_MAP ''identificador_unidade'' orig = Inr True
      \<and> (\<exists>c. get_codigo_fisico VAR_MAP ''identificador_unidade'' orig = Inr (Some c))
      \<and> variavel_existe VAR_MAP ''origem'' orig = Inr False"
proof
  fix orig assume "orig \<in> set (known_origins VAR_MAP)"
  then have o: "orig = ''2013'' \<or> orig = ''2019''"
    unfolding known_origins_VAR_MAP by simp
  then have e: "variavel_existe VAR_MAP ''identificador_unidade'' orig = Inr True"
    using unit_identifier_2013 unit_identifier_2019 by blast
  obtain r where r: "get_codigo_fisico VAR_MAP ''identificador_unidade'' orig = Inr r"
    unfolding get_codigo_fisico_def using lookup_field_total by blast
  with e have "r \<noteq> None" unfolding variavel_existe_def by simp
  with r have "\<exists>c. get_codigo_fisico VAR_MAP ''identificador_unidade'' orig = Inr (Some c)"
    by auto
  with e origem_never_exists [of orig]
  show "variavel_existe VAR_MAP ''identificador_unidade'' orig = Inr True
      \<and> (\<exists>c. get_codigo_fisico VAR_MAP ''identificador_unidade'' orig = Inr (Some c))
      \<and> variavel_existe VAR_MAP ''origem'' orig = Inr False" by simp
qed

theorem unit_identifier_mapped_in_every_origin_witness:
  "''2019'' \<in> set (known_origins VAR_MAP)
   \<and> variavel_existe VAR_MAP ''identificador_unidade'' ''2019'' = Inr True
   \<and> variavel_existe VAR_MAP ''origem'' ''2019'' = Inr False"
proof -
  have h: "''2019'' \<in> set (known_origins VAR_MAP)"
    unfolding known_origins_VAR_MAP by simp
  from unit_identifier_mapped_in_every_origin h show ?thesis by blast
qed


section \<open>Facts about the cache store\<close>

subsection \<open>Frames\<close>

lemma frame_refl: "frame S rs rs"
  unfolding frame_def by simp

lemma frame_trans:
  assumes "frame S rs rs'" and "frame S' rs' rs''"
  shows "frame (S \<union> S') rs rs''"
  using assms unfolding frame_def by auto

lemma frame_mono: "frame S rs rs' \<Longrightarrow> S \<subseteq> S' \<Longrightarrow> frame S' rs rs'"
  unfolding frame_def by blast

lemma cell_of_update:
  "cell_of (AList.update k v r) c = (if c = k then v else cell_of r c)"
  unfolding cell_of_def by (simp add: update_conv')

lemma frame_map_update: "frame {n} rs (map (AList.update n v) rs)"
  unfolding frame_def by (simp add: cell_of_update)

subsection \<open>Adding columns\<close>

lemma lower_mem: "n \<in> set ns \<Longrightarrow> lower n \<in> set (map lower ns)"
  by simp

lemma alter_fault:
  assumes "sql_alter_table_add_column n ty conn = (conn', Inl e)"
  shows "conn' = conn"
  using assms unfolding sql_alter_table_add_column_def
  by (auto split: option.splits if_splits)

lemma alter_result:
  assumes "sql_alter_table_add_column n ty conn = (conn', Inr u)"
  shows "n \<notin> set (get_table_columns conn) \<and> plain_identifier n
       \<and> db_rows conn' = map (AList.update n Null) (db_rows conn)
       \<and> db_schema conn' = db_schema conn @ [new_column n ty]
       \<and> conn \<noteq> None \<and> conn' \<noteq> None"
proof (cases conn)
  case None
  with assms show ?thesis unfolding sql_alter_table_add_column_def by simp
next
  case (Some t)
  show ?thesis
  proof (cases "plain_identifier n \<and> lower n \<notin> set (map lower (column_names t))")
    case False
    with assms Some show ?thesis unfolding sql_alter_table_add_column_def
      by (auto split: if_splits)
  next
    case True
    then have "n \<notin> set (column_names t)" using lower_mem by blast
    with assms Some True show ?thesis
      unfolding sql_alter_table_add_column_def get_table_columns_def db_rows_def db_schema_def
      by auto
  qed
qed

lemma get_table_columns_schema: "get_table_columns conn = map col_name (db_schema conn)"
  unfolding get_table_columns_def db_schema_def column_names_def by (cases conn) simp_all

lemma add_column_cases:
  assumes "add_column_if_not_exists n ty conn = (conn', r)"
  obtains (present) "n \<in> set (get_table_columns conn)" "conn' = conn" "r = Inr ()"
  | (failed) e where "n \<notin> set (get_table_columns conn)" "conn' = conn" "r = Inl e"
      "plain_identifier n \<longrightarrow> e \<noteq> OutsideModel"
  | (added) "n \<notin> set (get_table_columns conn)" "r = Inr ()"
      "db_rows conn' = map (AList.update n Null) (db_rows conn)"
      "db_schema conn' = db_schema conn @ [new_column n ty]"
      "conn \<noteq> None" "conn' \<noteq> None" "plain_identifier n"
proof (cases "n \<in> set (get_table_columns conn)")
  case True
  with assms have "conn' = conn" "r = Inr ()"
    unfolding add_column_if_not_exists_def by simp_all
  with True show ?thesis by (rule present)
next
  case False
  obtain c1 r1 where a: "sql_alter_table_add_column n ty conn = (c1, r1)"
    by (cases "sql_alter_table_add_column n ty conn")
  show ?thesis
  proof (cases r1)
    case (Inl e)
    with assms False a have "conn' = conn" "r = Inl e"
      unfolding add_column_if_not_exists_def get_connection_def by simp_all
    moreover from a Inl have "plain_identifier n \<longrightarrow> e \<noteq> OutsideModel"
      unfolding sql_alter_table_add_column_def by (auto split: option.splits if_splits)
    ultimately show ?thesis using False failed by blast
  next
    case (Inr u)
    with assms False a have eq: "conn' = c1" "r = Inr ()"
      unfolding add_column_if_not_exists_def get_connection_def by auto
    from alter_result [of n ty conn c1 u] Inr a eq
    have "db_rows conn' = map (AList.update n Null) (db_rows conn)"
      "db_schema conn' = db_schema conn @ [new_column n ty]" "conn \<noteq> None" "conn' \<noteq> None"
      "plain_identifier n"
      by simp_all
    with False eq(2) show ?thesis by (rule added)
  qed
qed

lemma loop_Cons_cases:
  assumes "ensure_columns_loop ex (c # cs) conn = (conn', r)"
  obtains (skip) "c \<in> set ex \<or> c \<in> set reserved_columns \<or> c \<in> set (get_table_columns conn)"
      "ensure_columns_loop ex cs conn = (conn', r)"
  | (stop) e where "c \<notin> set ex" "c \<notin> set reserved_columns"
      "c \<notin> set (get_table_columns conn)" "conn' = conn" "r = Inl e"
      "plain_identifier c \<longrightarrow> e \<noteq> OutsideModel"
  | (grow) conn1 where "c \<notin> set ex" "c \<notin> set reserved_columns"
      "c \<notin> set (get_table_columns conn)"
      "db_rows conn1 = map (AList.update c Null) (db_rows conn)"
      "db_schema conn1 = db_schema conn @ [new_column c (infer_col_type c)]"
      "conn \<noteq> None" "conn1 \<noteq> None"
      "ensure_columns_loop ex cs conn1 = (conn', r)" "plain_identifier c"
proof (cases "c \<in> set ex \<or> c \<in> set reserved_columns")
  case True
  with assms have "ensure_columns_loop ex cs conn = (conn', r)"
    by (auto split: if_splits)
  with True show ?thesis using skip by blast
next
  case False
  obtain conn1 r1 where a: "add_column_if_not_exists c (infer_col_type c) conn = (conn1, r1)"
    by (cases "add_column_if_not_exists c (infer_col_type c) conn")
  from False have nr: "c \<notin> set ex" "c \<notin> set reserved_columns" by simp_all
  from a show ?thesis
  proof (cases rule: add_column_cases)
    case present
    with assms a nr have "ensure_columns_loop ex cs conn = (conn', r)" by simp
    with present(1) show ?thesis using skip by blast
  next
    case (failed e)
    with assms a nr have "conn' = conn" "r = Inl e" by simp_all
    with nr failed(1,4) show ?thesis using stop by blast
  next
    case added
    with assms a nr have "ensure_columns_loop ex cs conn1 = (conn', r)" by simp
    with nr added show ?thesis using grow by blast
  qed
qed

lemma set_map_update_cols:
  "db_schema conn1 = db_schema conn @ [new_column c ty] \<Longrightarrow>
   set (get_table_columns conn1) = insert c (set (get_table_columns conn))"
  unfolding get_table_columns_schema new_column_def by simp

lemma loop_schema:
  "ensure_columns_loop ex names conn = (conn', r) \<Longrightarrow>
   \<exists>added. db_schema conn' = db_schema conn @ map (\<lambda>c. new_column c (infer_col_type c)) added
      \<and> distinct added
      \<and> set added \<subseteq> set names - set reserved_columns - set (get_table_columns conn)
      \<and> (r = Inr () \<longrightarrow> set names \<subseteq> set ex \<union> set reserved_columns
                                      \<union> set (get_table_columns conn'))"
proof (induction names arbitrary: conn)
  case Nil
  then have "conn' = conn" by simp
  then show ?case by (intro exI [of _ "[]"]) simp
next
  case (Cons c cs)
  from Cons.prems show ?case
  proof (cases rule: loop_Cons_cases)
    case skip
    from Cons.IH [OF skip(2)] obtain added where
      a: "db_schema conn' = db_schema conn @ map (\<lambda>c. new_column c (infer_col_type c)) added"
        "distinct added"
        "set added \<subseteq> set cs - set reserved_columns - set (get_table_columns conn)"
        "r = Inr () \<longrightarrow> set cs \<subseteq> set ex \<union> set reserved_columns \<union> set (get_table_columns conn')"
      by blast
    from a(1) have sub: "set (get_table_columns conn) \<subseteq> set (get_table_columns conn')"
      unfolding get_table_columns_schema by auto
    have "r = Inr () \<longrightarrow> set (c # cs) \<subseteq> set ex \<union> set reserved_columns
            \<union> set (get_table_columns conn')"
      using a(4) skip(1) sub by auto
    moreover have "set added \<subseteq> set (c # cs) - set reserved_columns - set (get_table_columns conn)"
      using a(3) by auto
    ultimately show ?thesis using a(1,2) by blast
  next
    case (stop e)
    then show ?thesis by (intro exI [of _ "[]"]) simp
  next
    case (grow conn1)
    from Cons.IH [OF grow(8)] obtain added where
      a: "db_schema conn' = db_schema conn1 @ map (\<lambda>c. new_column c (infer_col_type c)) added"
        "distinct added"
        "set added \<subseteq> set cs - set reserved_columns - set (get_table_columns conn1)"
        "r = Inr () \<longrightarrow> set cs \<subseteq> set ex \<union> set reserved_columns \<union> set (get_table_columns conn')"
      by blast
    note c1 = set_map_update_cols [OF grow(5)]
    from a(1) grow(5)
    have s: "db_schema conn' = db_schema conn
               @ map (\<lambda>c. new_column c (infer_col_type c)) (c # added)" by simp
    from a(3) c1 have d: "distinct (c # added)" using a(2) by auto
    from a(3) c1 grow(2,3)
    have sub: "set (c # added) \<subseteq> set (c # cs) - set reserved_columns - set (get_table_columns conn)"
      by auto
    from s have "c \<in> set (get_table_columns conn')"
      unfolding get_table_columns_schema new_column_def by simp
    with a(4) have "r = Inr () \<longrightarrow> set (c # cs) \<subseteq> set ex \<union> set reserved_columns
            \<union> set (get_table_columns conn')" by auto
    with s d sub show ?thesis by blast
  qed
qed

lemma loop_rows:
  "ensure_columns_loop ex names conn = (conn', r) \<Longrightarrow>
   length (db_rows conn') = length (db_rows conn)
   \<and> frame (set names - set reserved_columns - set (get_table_columns conn))
        (db_rows conn) (db_rows conn')
   \<and> (conn = None \<longrightarrow> conn' = None)"
proof (induction names arbitrary: conn)
  case Nil
  then have "conn' = conn" by simp
  then show ?case by (simp add: frame_refl)
next
  case (Cons c cs)
  from Cons.prems show ?case
  proof (cases rule: loop_Cons_cases)
    case skip
    from Cons.IH [OF skip(2)] show ?thesis
      by (auto elim: frame_mono)
  next
    case (stop e)
    then show ?thesis by (simp add: frame_refl)
  next
    case (grow conn1)
    note ih = Cons.IH [OF grow(8)]
    have f1: "frame {c} (db_rows conn) (db_rows conn1)"
      unfolding grow(4) by (rule frame_map_update)
    from ih have f2: "frame (set cs - set reserved_columns - set (get_table_columns conn1))
        (db_rows conn1) (db_rows conn')" by simp
    have "frame ({c} \<union> (set cs - set reserved_columns - set (get_table_columns conn1)))
        (db_rows conn) (db_rows conn')"
      by (rule frame_trans [OF f1 f2])
    then have "frame (set (c # cs) - set reserved_columns - set (get_table_columns conn))
        (db_rows conn) (db_rows conn')"
      by (rule frame_mono) (use grow(2,3) set_map_update_cols [OF grow(5)] in auto)
    moreover from ih grow(4) have "length (db_rows conn') = length (db_rows conn)" by simp
    ultimately show ?thesis using grow(6) by auto
  qed
qed

lemma loop_modelled:
  "ensure_columns_loop ex names conn = (conn', r) \<Longrightarrow> list_all plain_identifier names \<Longrightarrow>
   r \<noteq> Inl OutsideModel"
proof (induction names arbitrary: conn)
  case Nil
  then show ?case by auto
next
  case (Cons c cs)
  from Cons.prems(2) have pc: "plain_identifier c" and pcs: "list_all plain_identifier cs"
    by simp_all
  from Cons.prems(1) show ?case
  proof (cases rule: loop_Cons_cases)
    case skip
    from Cons.IH [OF skip(2) pcs] show ?thesis .
  next
    case (stop e)
    with pc show ?thesis by simp
  next
    case (grow conn1)
    from Cons.IH [OF grow(8) pcs] show ?thesis .
  qed
qed

subsection \<open>One execution of the upsert statement\<close>

lemma cell_of_fold_update:
  "cell_of (fold (\<lambda>c r'. AList.update c (f c) r') upd r) c
     = (if c \<in> set upd then f c else cell_of r c)"
  by (induction upd arbitrary: r) (auto simp: cell_of_update)

lemma cell_of_do_update:
  "cell_of (do_update now upd new r) c
     = (if c = ''updated_at'' then TextV now
        else if c \<in> set upd then cell_of new c else cell_of r c)"
  unfolding do_update_def by (simp add: cell_of_update cell_of_fold_update)

lemma key_of_do_update:
  assumes "conflicts new r"
  shows "key_of (do_update now upd new r) = key_of r"
proof -
  from assms have k: "cell_of r ''origem'' = cell_of new ''origem''"
    "cell_of r ''identificador_unidade'' = cell_of new ''identificador_unidade''"
    unfolding conflicts_def key_of_def by simp_all
  show ?thesis unfolding key_of_def using k by (simp add: cell_of_do_update)
qed

lemma upsert_row_cases:
  assumes "sql_upsert_row now conv ins upd vals t = Inr t'"
  obtains (updated) "list_ex (conflicts (insert_row now conv ins vals t)) (tbl_rows t)"
      "t' = t\<lparr>tbl_rows := map (\<lambda>r. if conflicts (insert_row now conv ins vals t) r
                                     then do_update now upd (insert_row now conv ins vals t) r
                                     else r) (tbl_rows t)\<rparr>"
  | (inserted) "\<not> list_ex (conflicts (insert_row now conv ins vals t)) (tbl_rows t)"
      "t' = t\<lparr>tbl_rows := tbl_rows t @ [insert_row now conv ins vals t]\<rparr>"
  using assms unfolding sql_upsert_row_def Let_def by (auto split: if_splits)

lemma upsert_row_frame:
  assumes "sql_upsert_row now conv ins upd vals t = Inr t'"
  shows "tbl_columns t' = tbl_columns t \<and> tbl_pk t' = tbl_pk t
       \<and> frame (insert ''updated_at'' (set upd)) (tbl_rows t) (tbl_rows t')
       \<and> (\<forall>i<length (tbl_rows t). key_of (tbl_rows t' ! i) = key_of (tbl_rows t ! i))"
  using assms
proof (cases rule: upsert_row_cases)
  case updated
  then show ?thesis
    unfolding frame_def by (simp add: cell_of_do_update key_of_do_update)
next
  case inserted
  then show ?thesis
    unfolding frame_def by (simp add: nth_append)
qed

lemma executemany_Cons_cases:
  assumes "executemany clock conv i ins upd (v # vs) t = (t', eo)"
  obtains (fault) e where "sql_upsert_row (clock i) conv ins upd v t = Inl e" "t' = t"
      "eo = Some e"
  | (step) t1 where "sql_upsert_row (clock i) conv ins upd v t = Inr t1"
      "executemany clock conv (Suc i) ins upd vs t1 = (t', eo)"
  using assms by (cases "sql_upsert_row (clock i) conv ins upd v t") auto

lemma executemany_frame:
  "executemany clock conv i ins upd vals t = (t', eo) \<Longrightarrow>
   tbl_columns t' = tbl_columns t \<and> tbl_pk t' = tbl_pk t
   \<and> frame (insert ''updated_at'' (set upd)) (tbl_rows t) (tbl_rows t')
   \<and> (\<forall>i<length (tbl_rows t). key_of (tbl_rows t' ! i) = key_of (tbl_rows t ! i))"
proof (induction vals arbitrary: t i)
  case Nil
  then show ?case by (simp add: frame_refl)
next
  case (Cons v vs)
  from Cons.prems show ?case
  proof (cases rule: executemany_Cons_cases)
    case (fault e)
    then show ?thesis by (simp add: frame_refl)
  next
    case (step t1)
    note a = upsert_row_frame [OF step(1)]
    note b = Cons.IH [OF step(2)]
    from a b have f: "frame (insert ''updated_at'' (set upd) \<union> insert ''updated_at'' (set upd))
        (tbl_rows t) (tbl_rows t')"
      by (blast intro: frame_trans)
    from a have len: "length (tbl_rows t) \<le> length (tbl_rows t1)" unfolding frame_def by simp
    from a b len
    have k: "\<forall>i<length (tbl_rows t). key_of (tbl_rows t' ! i) = key_of (tbl_rows t ! i)"
      by auto
    from a b f k show ?thesis by simp
  qed
qed

subsection \<open>The ways an upsert call ends\<close>

lemma upsert_rows_cases:
  obtains (empty) "df_empty df" "upsert_rows clock conv df pk conn = (conn, Inr EmptyBatch)"
  | (missing) "\<not> df_empty df" "missing_pk df (pk_or_default pk) \<noteq> []"
      "upsert_rows clock conv df pk conn
         = (conn, Inl (ValueError (missing_pk df (pk_or_default pk))))"
  | (schema_fault) conn1 e where "\<not> df_empty df" "missing_pk df (pk_or_default pk) = []"
      "ensure_columns_exist (df_columns df) conn = (conn1, Inl e)"
      "upsert_rows clock conv df pk conn = (conn1, Inl e)"
  | (write_fault) conn1 mid e where "\<not> df_empty df" "missing_pk df (pk_or_default pk) = []"
      "ensure_columns_exist (df_columns df) conn = (conn1, Inr ())"
      "upsert_body clock conv (columns_to_insert df) (update_columns df (pk_or_default pk))
         (df_select df (columns_to_insert df)) conn1 = (mid, Inl e)"
      "upsert_rows clock conv df pk conn = (conn1, Inl e)"
  | (written) t1 t2 where "\<not> df_empty df" "missing_pk df (pk_or_default pk) = []"
      "ensure_columns_exist (df_columns df) conn = (Some t1, Inr ())"
      "statement_compiles (columns_to_insert df) (update_columns df (pk_or_default pk)) t1"
      "executemany clock conv 0 (columns_to_insert df) (update_columns df (pk_or_default pk))
         (df_select df (columns_to_insert df)) t1 = (t2, None)"
      "upsert_rows clock conv df pk conn
         = (Some t2, Inr (RowsAffected (length (df_values df))))"
proof (cases "df_empty df \<or> missing_pk df (pk_or_default pk) \<noteq> []")
  case True
  then show ?thesis using empty missing unfolding upsert_rows_def by auto
next
  case False
  then have ne: "\<not> df_empty df" "missing_pk df (pk_or_default pk) = []" by simp_all
  obtain conn1 r1 where e: "ensure_columns_exist (df_columns df) conn = (conn1, r1)"
    by (cases "ensure_columns_exist (df_columns df) conn")
  show ?thesis
  proof (cases r1)
    case (Inl err)
    with e ne have "upsert_rows clock conv df pk conn = (conn1, Inl err)"
      unfolding upsert_rows_def by simp
    with e ne Inl show ?thesis using schema_fault by blast
  next
    case (Inr u)
    let ?body = "upsert_body clock conv (columns_to_insert df)
         (update_columns df (pk_or_default pk)) (df_select df (columns_to_insert df)) conn1"
    from Inr e have e': "ensure_columns_exist (df_columns df) conn = (conn1, Inr ())" by simp
    obtain mid r2 where b: "?body = (mid, r2)" by (cases ?body)
    show ?thesis
    proof (cases r2)
      case (Inl err)
      with e' ne b have "upsert_rows clock conv df pk conn = (conn1, Inl err)"
        unfolding upsert_rows_def get_connection_def by simp
      with e' ne b Inl show ?thesis using write_fault by blast
    next
      case ok: (Inr n)
      from ok b obtain t1 where t1: "conn1 = Some t1"
        unfolding upsert_body_def by (cases conn1) simp_all
      from ok b t1 have sc: "statement_compiles (columns_to_insert df)
          (update_columns df (pk_or_default pk)) t1"
        unfolding upsert_body_def by (auto split: if_splits)
      from ok b t1 sc obtain t2 where
        t2: "executemany clock conv 0 (columns_to_insert df)
               (update_columns df (pk_or_default pk))
               (df_select df (columns_to_insert df)) t1 = (t2, None)"
        and p: "mid = Some t2" "n = length (df_select df (columns_to_insert df))"
        unfolding upsert_body_def by (auto split: if_splits prod.splits option.splits)
      have len: "length (df_select df (columns_to_insert df)) = length (df_values df)"
        unfolding df_select_def by simp
      from e' ne ok b p len
      have "upsert_rows clock conv df pk conn
              = (Some t2, Inr (RowsAffected (length (df_values df))))"
        unfolding upsert_rows_def get_connection_def by simp
      with e' ne t1 sc t2 show ?thesis using written by blast
    qed
  qed
qed

lemma scenario_store_rows:
  "db_rows scenario_store
     = [[(''origem'', TextV ''2013''), (''identificador_unidade'', TextV ''UPA001''),
         (''created_at'', TextV ''2024-01-01 10:00:00''),
         (''updated_at'', TextV ''2024-01-01 10:00:00''), (''idade'', IntV 30)],
        [(''origem'', TextV ''2019''), (''identificador_unidade'', TextV ''UPA002''),
         (''created_at'', TextV ''2024-01-01 10:00:01''),
         (''updated_at'', TextV ''2024-01-01 10:00:01''), (''idade'', IntV 28)]]"
  by code_simp

lemma wf_scenarios:
  "well_formed scenario_first_batch" "well_formed scenario_second_batch"
  "well_formed null_key_batch"
  by code_simp+

subsection \<open>What a call leaves alone\<close>

lemma timestamps_reserved: "set timestamp_columns \<subseteq> set reserved_columns"
  unfolding timestamp_columns_def reserved_columns_def by simp

lemma set_columns_to_insert:
  "set (columns_to_insert df) = set (df_columns df) - set timestamp_columns"
  unfolding columns_to_insert_def by auto

lemma set_update_columns: "set (update_columns df pk) \<subseteq> set (columns_to_insert df)"
  unfolding update_columns_def by auto

lemma ensure_columns_exist_rows:
  assumes "ensure_columns_exist names conn = (conn', r)"
  shows "length (db_rows conn') = length (db_rows conn)"
    and "frame (set names - set reserved_columns - set (get_table_columns conn))
           (db_rows conn) (db_rows conn')"
  using loop_rows [of "get_table_columns conn" names conn conn' r] assms
  unfolding ensure_columns_exist_def by simp_all

lemma db_rows_Some: "db_rows (Some t) = tbl_rows t"
  unfolding db_rows_def by simp

lemma upsert_rows_frame:
  assumes "upsert_rows clock conv df pk conn = (conn', r)"
  shows "frame (insert ''updated_at'' (set (columns_to_insert df))) (db_rows conn) (db_rows conn')"
proof -
  have stage1: "frame (insert ''updated_at'' (set (columns_to_insert df)))
      (db_rows conn) (db_rows c1)"
    if "ensure_columns_exist (df_columns df) conn = (c1, r1)" for c1 r1
    using ensure_columns_exist_rows(2) [OF that]
    by (rule frame_mono) (use timestamps_reserved set_columns_to_insert in auto)
  show ?thesis
  proof (cases rule: upsert_rows_cases [of df clock conv pk conn])
    case empty
    with assms show ?thesis by (simp add: frame_refl)
  next
    case missing
    with assms show ?thesis by (simp add: frame_refl)
  next
    case (schema_fault conn1 e)
    with assms stage1 [OF schema_fault(3)] show ?thesis by simp
  next
    case (write_fault conn1 mid e)
    with assms stage1 [OF write_fault(3)] show ?thesis by simp
  next
    case (written t1 t2)
    from executemany_frame [OF written(5)]
    have "frame (insert ''updated_at'' (set (update_columns df (pk_or_default pk))))
        (tbl_rows t1) (tbl_rows t2)" by simp
    then have f2: "frame (insert ''updated_at'' (set (columns_to_insert df)))
        (db_rows (Some t1)) (db_rows (Some t2))"
      unfolding db_rows_Some
      by (rule frame_mono) (use set_update_columns in auto)
    from frame_trans [OF stage1 [OF written(3)] f2] written(6) assms
    show ?thesis by simp
  qed
qed

lemma frame_key_of:
  assumes "frame S rs rs'" and "''origem'' \<notin> S" and "''identificador_unidade'' \<notin> S"
    and "i < length rs"
  shows "key_of (rs' ! i) = key_of (rs ! i)"
  using assms unfolding frame_def key_of_def by simp

lemma reserved_keys:
  "''origem'' \<in> set reserved_columns" "''identificador_unidade'' \<in> set reserved_columns"
  "''created_at'' \<in> set reserved_columns" "''updated_at'' \<in> set reserved_columns"
  unfolding reserved_columns_def by simp_all

lemma upsert_rows_keys:
  assumes "upsert_rows clock conv df pk conn = (conn', r)" and "i < length (db_rows conn)"
  shows "key_of (db_rows conn' ! i) = key_of (db_rows conn ! i)"
proof -
  have stage1: "key_of (db_rows c1 ! i) = key_of (db_rows conn ! i)
        \<and> length (db_rows c1) = length (db_rows conn)"
    if "ensure_columns_exist (df_columns df) conn = (c1, r1)" for c1 r1
    using frame_key_of [OF ensure_columns_exist_rows(2) [OF that] _ _ assms(2)]
      ensure_columns_exist_rows(1) [OF that] reserved_keys by simp
  show ?thesis
  proof (cases rule: upsert_rows_cases [of df clock conv pk conn])
    case empty
    with assms show ?thesis by simp
  next
    case missing
    with assms show ?thesis by simp
  next
    case (schema_fault conn1 e)
    with assms stage1 [OF schema_fault(3)] show ?thesis by simp
  next
    case (write_fault conn1 mid e)
    with assms stage1 [OF write_fault(3)] show ?thesis by simp
  next
    case (written t1 t2)
    from stage1 [OF written(3)] assms(2) have i: "i < length (tbl_rows t1)"
      unfolding db_rows_Some by simp
    from executemany_frame [OF written(5)] i
    have "key_of (tbl_rows t2 ! i) = key_of (tbl_rows t1 ! i)" by simp
    with stage1 [OF written(3)] written(6) assms show ?thesis
      by (simp add: db_rows_Some)
  qed
qed

subsection \<open>The cells of a proposed row\<close>

lemma map_of_map_find:
  "map_of (map (\<lambda>x. (k x, g x)) xs) c = map_option g (find (\<lambda>x. k x = c) xs)"
  by (induction xs) auto

lemma find_column:
  "c \<in> set (column_names t) \<Longrightarrow> \<exists>col. find (\<lambda>col. col_name col = c) (tbl_columns t) = Some col"
  unfolding column_names_def by (cases "find (\<lambda>col. col_name col = c) (tbl_columns t)")
    (auto simp: find_None_iff)

lemma cell_of_insert_row_find:
  assumes "find (\<lambda>col. col_name col = c) (tbl_columns t) = Some col"
  shows "cell_of (insert_row now conv ins vals t) c
     = (case map_of (zip ins vals) c of
          Some v \<Rightarrow> conv (col_type col) v
        | None \<Rightarrow> if c \<in> set timestamp_columns \<or> col_default_now col then TextV now else Null)"
proof -
  from assms have n: "col_name col = c" by (auto simp: find_Some_iff)
  show ?thesis
    unfolding insert_row_def cell_of_def map_of_map_find assms
    by (simp add: n)
qed

lemma map_of_zip_absent: "c \<notin> set xs \<Longrightarrow> map_of (zip xs ys) c = None"
  by (auto simp: map_of_eq_None_iff dest: set_zip_leftD)

lemma insert_row_timestamp:
  assumes "c \<in> set timestamp_columns" and "c \<notin> set ins" and "c \<in> set (column_names t)"
  shows "cell_of (insert_row now conv ins vals t) c = TextV now"
proof -
  from find_column [OF assms(3)] obtain col where
    col: "find (\<lambda>col. col_name col = c) (tbl_columns t) = Some col" ..
  show ?thesis
    unfolding cell_of_insert_row_find [OF col]
    using assms(1) by (simp add: map_of_zip_absent [OF assms(2)])
qed

lemma type_of_column_Some:
  "find (\<lambda>col. col_name col = c) (tbl_columns t) = Some col \<Longrightarrow>
   type_of_column (Some t) c = col_type col"
  unfolding type_of_column_def db_schema_def by simp

lemma insert_row_given:
  assumes "c \<in> set ins" and "c \<in> set (column_names t)"
  shows "cell_of (insert_row now conv ins (map f ins) t) c = conv (type_of_column (Some t) c) (f c)"
proof -
  from find_column [OF assms(2)] obtain col where
    col: "find (\<lambda>col. col_name col = c) (tbl_columns t) = Some col" ..
  show ?thesis
    unfolding cell_of_insert_row_find [OF col] type_of_column_Some [OF col]
    by (simp add: map_of_zip_map assms(1))
qed

lemma insert_row_cong:
  "tbl_columns t1 = tbl_columns t \<Longrightarrow> insert_row now conv ins v t1 = insert_row now conv ins v t"
  unfolding insert_row_def by simp

lemma timestamps_not_inserted:
  "c \<in> set timestamp_columns \<Longrightarrow> c \<notin> set (columns_to_insert df)"
  unfolding columns_to_insert_def by simp

lemma timestamps_not_updated:
  "c \<in> set timestamp_columns \<Longrightarrow> c \<notin> set (update_columns df pk)"
  using set_update_columns [of df pk] timestamps_not_inserted [of c df] by blast

lemma timestamp_names:
  "''created_at'' \<in> set timestamp_columns" "''updated_at'' \<in> set timestamp_columns"
  unfolding timestamp_columns_def by simp_all

lemma statement_compiles_columns:
  assumes "statement_compiles ins upd t"
  shows "c \<in> set timestamp_columns \<Longrightarrow> c \<in> set (column_names t)"
    "set ins \<subseteq> set (column_names t)"
  using assms unfolding statement_compiles_def by (auto simp: list_all_iff)

subsection \<open>The times a call writes\<close>

lemma stamped_refl: "stamped T c rs rs"
  unfolding stamped_def by simp

lemma stamped_mono: "stamped T c rs rs' \<Longrightarrow> T \<subseteq> T' \<Longrightarrow> stamped T' c rs rs'"
  unfolding stamped_def by blast

lemma stamped_trans:
  assumes "stamped T c rs rs1" and "stamped T' c rs1 rs2"
  shows "stamped (T \<union> T') c rs rs2"
  unfolding stamped_def
proof (intro allI impI)
  fix i assume i: "i < length rs2"
  from assms(2) i have "(\<exists>s\<in>T'. cell_of (rs2 ! i) c = TextV s)
      \<or> (i < length rs1 \<and> cell_of (rs2 ! i) c = cell_of (rs1 ! i) c)"
    unfolding stamped_def by simp
  then show "(\<exists>s\<in>T \<union> T'. cell_of (rs2 ! i) c = TextV s)
      \<or> (i < length rs \<and> cell_of (rs2 ! i) c = cell_of (rs ! i) c)"
  proof
    assume "\<exists>s\<in>T'. cell_of (rs2 ! i) c = TextV s"
    then show ?thesis by blast
  next
    assume a: "i < length rs1 \<and> cell_of (rs2 ! i) c = cell_of (rs1 ! i) c"
    with assms(1) have "(\<exists>s\<in>T. cell_of (rs1 ! i) c = TextV s)
      \<or> (i < length rs \<and> cell_of (rs1 ! i) c = cell_of (rs ! i) c)"
      unfolding stamped_def by simp
    with a show ?thesis by auto
  qed
qed

lemma frame_stamped:
  assumes "frame S rs rs'" and "length rs' = length rs" and "c \<notin> S"
  shows "stamped T c rs rs'"
  using assms unfolding frame_def stamped_def by simp

lemma upsert_row_stamped:
  assumes "sql_upsert_row now conv ins upd vals t = Inr t'"
    and "c \<in> set timestamp_columns" and "c \<notin> set ins" and "c \<notin> set upd"
    and "c \<in> set (column_names t)"
  shows "stamped {now} c (tbl_rows t) (tbl_rows t')"
  using assms(1)
proof (cases rule: upsert_row_cases)
  case updated
  then show ?thesis
    unfolding stamped_def using assms(4) by (simp add: cell_of_do_update)
next
  case inserted
  from insert_row_timestamp [OF assms(2,3,5)]
  have "cell_of (insert_row now conv ins vals t) c = TextV now" .
  with inserted(2) show ?thesis
    unfolding stamped_def by (simp add: nth_append)
qed

lemma executemany_stamped:
  "executemany clock conv i ins upd vals t = (t', eo) \<Longrightarrow>
   c \<in> set timestamp_columns \<Longrightarrow> c \<notin> set ins \<Longrightarrow> c \<notin> set upd \<Longrightarrow>
   c \<in> set (column_names t) \<Longrightarrow>
   stamped (clock ` {i..<i + length vals}) c (tbl_rows t) (tbl_rows t')"
proof (induction vals arbitrary: t i)
  case Nil
  then show ?case by (simp add: stamped_refl)
next
  case (Cons v vs)
  from Cons.prems(1) show ?case
  proof (cases rule: executemany_Cons_cases)
    case (fault e)
    then show ?thesis by (simp add: stamped_refl)
  next
    case (step t1)
    from upsert_row_frame [OF step(1)] have "tbl_columns t1 = tbl_columns t" by simp
    with Cons.prems(5) have cn: "c \<in> set (column_names t1)" unfolding column_names_def by simp
    have sub: "{clock i} \<union> clock ` {Suc i..<Suc i + length vs}
                 \<subseteq> clock ` {i..<i + length (v # vs)}"
      by auto
    from stamped_trans [OF upsert_row_stamped [OF step(1) Cons.prems(2,3,4,5)]
                           Cons.IH [OF step(2) Cons.prems(2,3,4) cn]]
    show ?thesis by (rule stamped_mono) (rule sub)
  qed
qed

lemma upsert_rows_stamped:
  assumes "c \<in> set timestamp_columns"
  shows "stamped (clock ` {0..<length (df_values df)}) c (db_rows conn)
           (db_rows (fst (upsert_rows clock conv df pk conn)))"
proof -
  let ?T = "clock ` {0..<length (df_values df)}"
  from assms timestamps_reserved have res: "c \<in> set reserved_columns" by blast
  have stage1: "stamped {} c (db_rows conn) (db_rows c1)"
    if "ensure_columns_exist (df_columns df) conn = (c1, r1)" for c1 r1
    by (rule frame_stamped [OF ensure_columns_exist_rows(2) [OF that]
                               ensure_columns_exist_rows(1) [OF that]])
       (use res in simp)
  have stage1': "stamped ?T c (db_rows conn) (db_rows c1)"
    if "ensure_columns_exist (df_columns df) conn = (c1, r1)" for c1 r1
    by (rule stamped_mono [OF stage1 [OF that]]) simp
  show ?thesis
  proof (cases rule: upsert_rows_cases [of df clock conv pk conn])
    case empty
    then show ?thesis by (simp add: stamped_refl)
  next
    case missing
    then show ?thesis by (simp add: stamped_refl)
  next
    case (schema_fault conn1 e)
    with stage1' [OF schema_fault(3)] show ?thesis by simp
  next
    case (write_fault conn1 mid e)
    with stage1' [OF write_fault(3)] show ?thesis by simp
  next
    case (written t1 t2)
    note cn = statement_compiles_columns(1) [OF written(4) assms]
    note ni = timestamps_not_inserted [OF assms, of df]
    note nu = timestamps_not_updated [OF assms, of df "pk_or_default pk"]
    have len: "length (df_select df (columns_to_insert df)) = length (df_values df)"
      unfolding df_select_def by simp
    from executemany_stamped [OF written(5) assms ni nu cn]
    have "stamped ?T c (db_rows (Some t1)) (db_rows (Some t2))"
      unfolding db_rows_Some len by simp
    from stamped_trans [OF stage1 [OF written(3)] this] written(6)
    show ?thesis by simp
  qed
qed

lemma upsert_rows_stamps:
  assumes "c \<in> set timestamp_columns"
    and "i < length (db_rows (fst (upsert_rows clock conv df pk conn)))"
  shows "(\<exists>j<length (df_values df).
            cell_at (fst (upsert_rows clock conv df pk conn)) i c = TextV (clock j))
         \<or> (i < length (db_rows conn)
            \<and> cell_at (fst (upsert_rows clock conv df pk conn)) i c = cell_at conn i c)"
proof -
  let ?after = "fst (upsert_rows clock conv df pk conn)"
  from upsert_rows_stamped [OF assms(1), of clock df conn conv pk] assms(2)
  have "(\<exists>s\<in>clock ` {0..<length (df_values df)}. cell_of (db_rows ?after ! i) c = TextV s)
      \<or> (i < length (db_rows conn) \<and> cell_of (db_rows ?after ! i) c = cell_of (db_rows conn ! i) c)"
    unfolding stamped_def by blast
  then show ?thesis
  proof
    assume "\<exists>s\<in>clock ` {0..<length (df_values df)}. cell_of (db_rows ?after ! i) c = TextV s"
    then obtain j where "j < length (df_values df)" "cell_of (db_rows ?after ! i) c = TextV (clock j)"
      by auto
    then show ?thesis unfolding cell_at_def by blast
  next
    assume "i < length (db_rows conn) \<and> cell_of (db_rows ?after ! i) c = cell_of (db_rows conn ! i) c"
    then show ?thesis unfolding cell_at_def by blast
  qed
qed

subsection \<open>Cells outside the batch (C1)\<close>

text \<open>
  C1. Whatever a well-formed batch holds and whatever the call reports, every row stored
  before an upsert is still at its place afterwards, under the same key, and reads
  exactly its prior value (so never a new \<open>NULL\<close>) in every column that is absent from
  the batch. The one column the specification sets apart, \<open>updated_at\<close>, reads its prior
  value or the time of one of the statements of the call, and so is never set to \<open>NULL\<close>
  either.
\<close>

theorem upsert_keeps_columns_absent_from_batch:
  assumes "well_formed df"
  shows "\<forall>i<length (db_rows conn).
      i < length (db_rows (fst (upsert_rows clock conv df pk conn)))
      \<and> key_of (db_rows (fst (upsert_rows clock conv df pk conn)) ! i) = key_of (db_rows conn ! i)
      \<and> (\<forall>c. c \<notin> set (df_columns df) \<and> c \<noteq> ''updated_at'' \<longrightarrow>
             cell_at (fst (upsert_rows clock conv df pk conn)) i c = cell_at conn i c)
      \<and> (cell_at (fst (upsert_rows clock conv df pk conn)) i ''updated_at''
           = cell_at conn i ''updated_at''
         \<or> (\<exists>j<length (df_values df).
               cell_at (fst (upsert_rows clock conv df pk conn)) i ''updated_at''
                 = TextV (clock j)))"
proof (intro allI impI)
  fix i assume i: "i < length (db_rows conn)"
  obtain conn' r where u: "upsert_rows clock conv df pk conn = (conn', r)"
    by (cases "upsert_rows clock conv df pk conn")
  note f = upsert_rows_frame [OF u]
  from f i have len: "i < length (db_rows conn')" unfolding frame_def by simp
  have cells: "cell_at conn' i c = cell_at conn i c"
    if "c \<notin> set (df_columns df) \<and> c \<noteq> ''updated_at''" for c
  proof -
    from that have "c \<notin> insert ''updated_at'' (set (columns_to_insert df))"
      using set_columns_to_insert by auto
    with f i show ?thesis unfolding frame_def cell_at_def by simp
  qed
  from upsert_rows_stamps [OF timestamp_names(2), of i clock conv df pk conn] len u
  have upd: "cell_at conn' i ''updated_at'' = cell_at conn i ''updated_at''
         \<or> (\<exists>j<length (df_values df). cell_at conn' i ''updated_at'' = TextV (clock j))"
    by auto
  from len upsert_rows_keys [OF u i] cells upd
  show "i < length (db_rows (fst (upsert_rows clock conv df pk conn)))
      \<and> key_of (db_rows (fst (upsert_rows clock conv df pk conn)) ! i) = key_of (db_rows conn ! i)
      \<and> (\<forall>c. c \<notin> set (df_columns df) \<and> c \<noteq> ''updated_at'' \<longrightarrow>
             cell_at (fst (upsert_rows clock conv df pk conn)) i c = cell_at conn i c)
      \<and> (cell_at (fst (upsert_rows clock conv df pk conn)) i ''updated_at''
           = cell_at conn i ''updated_at''
         \<or> (\<exists>j<length (df_values df).
               cell_at (fst (upsert_rows clock conv df pk conn)) i ''updated_at''
                 = TextV (clock j)))"
    unfolding u by simp
qed

theorem upsert_keeps_columns_absent_from_batch_witness:
  "well_formed other_column_batch
   \<and> 0 < length (db_rows scenario_store)
   \<and> ''idade'' \<notin> set (df_columns other_column_batch)
   \<and> snd (upsert_rows second_call scenario_affinity other_column_batch None scenario_store)
       = Inr (RowsAffected 1)
   \<and> cell_at (fst (upsert_rows second_call scenario_affinity other_column_batch None
        scenario_store)) 0 ''sexo'' = TextV ''2''
   \<and> cell_at (fst (upsert_rows second_call scenario_affinity other_column_batch None
        scenario_store)) 0 ''idade'' = IntV 30
   \<and> cell_at (fst (upsert_rows second_call scenario_affinity other_column_batch None
        scenario_store)) 0 ''created_at'' = TextV ''2024-01-01 10:00:00''
   \<and> key_of (db_rows (fst (upsert_rows second_call scenario_affinity other_column_batch None
        scenario_store)) ! 0) = (TextV ''2013'', TextV ''UPA001'')"
proof -
  let ?after = "fst (upsert_rows second_call scenario_affinity other_column_batch None
        scenario_store)"
  have w: "well_formed other_column_batch" by code_simp
  have h: "0 < length (db_rows scenario_store)" by code_simp
  have c: "''idade'' \<notin> set (df_columns other_column_batch) \<and> ''idade'' \<noteq> ''updated_at''
     \<and> ''created_at'' \<notin> set (df_columns other_column_batch)
     \<and> ''created_at'' \<noteq> ''updated_at''" by code_simp
  have v: "cell_at scenario_store 0 ''idade'' = IntV 30
     \<and> cell_at scenario_store 0 ''created_at'' = TextV ''2024-01-01 10:00:00''
     \<and> key_of (db_rows scenario_store ! 0) = (TextV ''2013'', TextV ''UPA001'')" by code_simp
  have r: "snd (upsert_rows second_call scenario_affinity other_column_batch None
              scenario_store) = Inr (RowsAffected 1)
     \<and> cell_at ?after 0 ''sexo'' = TextV ''2''" by code_simp
  from upsert_keeps_columns_absent_from_batch
         [OF w, of scenario_store second_call scenario_affinity None] h c v
  have "cell_at ?after 0 ''idade'' = IntV 30
     \<and> cell_at ?after 0 ''created_at'' = TextV ''2024-01-01 10:00:00''
     \<and> key_of (db_rows ?after ! 0) = (TextV ''2013'', TextV ''UPA001'')" by simp
  with w h c r show ?thesis by simp
qed

subsection \<open>Validation of the frame (C7, C6)\<close>

text \<open>
  C7. A frame with zero rows makes \<open>upsert_rows\<close> log the empty-batch warning and return
  at once: the call reports \<open>EmptyBatch\<close>, raises nothing, and the store it returns is the
  store it was given, schema and rows.
\<close>

theorem empty_batch_is_a_noop:
  "df_values df = [] \<Longrightarrow> upsert_rows clock conv df pk conn = (conn, Inr EmptyBatch)"
  unfolding upsert_rows_def df_empty_def by simp

theorem empty_batch_is_a_noop_witness:
  "df_values \<lparr>df_columns = [''origem'', ''identificador_unidade'', ''idade''], df_values = []\<rparr> = []
   \<and> upsert_rows second_call scenario_affinity
        \<lparr>df_columns = [''origem'', ''identificador_unidade'', ''idade''], df_values = []\<rparr>
        None scenario_store = (scenario_store, Inr EmptyBatch)"
  using empty_batch_is_a_noop
    [of "\<lparr>df_columns = [''origem'', ''identificador_unidade'', ''idade''], df_values = []\<rparr>"
        second_call scenario_affinity None scenario_store]
  by simp

lemma missing_key_columns_leave_store_untouched:
  assumes "missing_pk df (pk_or_default pk) \<noteq> []"
  shows "fst (upsert_rows clock conv df pk conn) = conn
       \<and> (\<not> df_empty df \<longrightarrow>
            snd (upsert_rows clock conv df pk conn)
              = Inl (ValueError (missing_pk df (pk_or_default pk))))
       \<and> (df_empty df \<longrightarrow> snd (upsert_rows clock conv df pk conn) = Inr EmptyBatch)"
  using assms unfolding upsert_rows_def by simp

text \<open>
  C6. When the frame lacks a key column the store is returned untouched, and a frame that
  is not empty fails with the \<open>ValueError\<close> naming the missing key columns, before
  \<open>ensure_columns_exist\<close> or any statement runs. On a frame that lacks the key columns
  and has no rows the source does not do what its documentation and the specification
  say: \<open>upsert_rows\<close> is documented to raise \<open>ValueError\<close> when the frame is empty or
  lacks the key columns, but the emptiness test comes first and returns after a warning,
  so the call reports \<open>EmptyBatch\<close> and raises nothing.
\<close>

theorem empty_frame_without_keys_returns_silently:
  "missing_pk \<lparr>df_columns = [''idade''], df_values = []\<rparr> (pk_or_default None)
     = [''origem'', ''identificador_unidade'']
   \<and> upsert_rows second_call scenario_affinity \<lparr>df_columns = [''idade''], df_values = []\<rparr> None
        (Some pns_respostas) = (Some pns_respostas, Inr EmptyBatch)
   \<and> upsert_rows second_call scenario_affinity
        \<lparr>df_columns = [''idade''], df_values = [[IntV 30]]\<rparr> None (Some pns_respostas)
       = (Some pns_respostas, Inl (ValueError [''origem'', ''identificador_unidade'']))"
  by code_simp

subsection \<open>The row transaction (C2)\<close>

lemma upsert_row_error:
  "sql_upsert_row now conv ins upd vals t = Inl e \<Longrightarrow> e = OverflowError \<or> e = IntegrityError"
  unfolding sql_upsert_row_def Let_def by (auto split: if_splits)

lemma executemany_error:
  "executemany clock conv i ins upd vals t = (t', Some e) \<Longrightarrow>
   e = OverflowError \<or> e = IntegrityError"
proof (induction vals arbitrary: t i)
  case Nil
  then show ?case by simp
next
  case (Cons v vs)
  from Cons.prems show ?case
  proof (cases rule: executemany_Cons_cases)
    case (fault e')
    with upsert_row_error [OF fault(1)] show ?thesis by simp
  next
    case (step t1)
    from Cons.IH [OF step(2)] show ?thesis .
  qed
qed

lemma upsert_body_error:
  assumes "upsert_body clock conv ins upd vals conn = (mid, Inl e)"
    and "list_all plain_identifier ins"
  shows "e = OperationalError \<or> e = OverflowError \<or> e = IntegrityError"
proof (cases conn)
  case None
  with assms show ?thesis unfolding upsert_body_def by auto
next
  case (Some t)
  show ?thesis
  proof (cases "statement_compiles ins upd t")
    case False
    with assms Some show ?thesis unfolding upsert_body_def by auto
  next
    case True
    obtain t' eo where x: "executemany clock conv 0 ins upd vals t = (t', eo)"
      by (cases "executemany clock conv 0 ins upd vals t")
    with assms Some True have "eo = Some e"
      unfolding upsert_body_def by (cases eo) auto
    with executemany_error [of clock conv 0 ins upd vals t t' e] x show ?thesis by simp
  qed
qed

lemma plain_columns_to_insert:
  "well_formed df \<Longrightarrow> list_all plain_identifier (columns_to_insert df)"
  unfolding well_formed_def columns_to_insert_def by (auto simp: list_all_iff)

lemma upsert_rows_modelled:
  assumes "well_formed df" and "upsert_rows clock conv df pk conn = (conn', r)"
  shows "r \<noteq> Inl OutsideModel"
proof (cases rule: upsert_rows_cases [of df clock conv pk conn])
  case empty
  with assms show ?thesis by auto
next
  case missing
  with assms show ?thesis by auto
next
  case (schema_fault conn1 e)
  from assms(1) have "list_all plain_identifier (df_columns df)"
    unfolding well_formed_def by simp
  from loop_modelled [OF _ this, of "get_table_columns conn" conn conn1 "Inl e"] schema_fault(3)
  have "e \<noteq> OutsideModel" unfolding ensure_columns_exist_def by simp
  with schema_fault assms show ?thesis by auto
next
  case (write_fault conn1 mid e)
  from upsert_body_error [OF write_fault(4) plain_columns_to_insert [OF assms(1)]]
  have "e \<noteq> OutsideModel" by auto
  with write_fault assms show ?thesis by auto
next
  case (written t1 t2)
  with assms show ?thesis by auto
qed

lemma row_fault_rolled_back:
  assumes "well_formed df" and "\<not> df_empty df" and "missing_pk df (pk_or_default pk) = []"
    and "ensure_columns_exist (df_columns df) conn = (Some t1, Inr ())"
    and "statement_compiles (columns_to_insert df) (update_columns df (pk_or_default pk)) t1"
    and "executemany clock conv 0 (columns_to_insert df) (update_columns df (pk_or_default pk))
           (df_select df (columns_to_insert df)) t1 = (tm, Some e)"
  shows "upsert_rows clock conv df pk conn = (Some t1, Inl e)"
proof -
  from plain_columns_to_insert [OF assms(1)] assms(5,6)
  have "upsert_body clock conv (columns_to_insert df) (update_columns df (pk_or_default pk))
           (df_select df (columns_to_insert df)) (Some t1) = (Some tm, Inl e)"
    unfolding upsert_body_def by simp
  with assms(2,3,4) show ?thesis
    unfolding upsert_rows_def get_connection_def by simp
qed

text \<open>
  C2, as the claim states it, fails on schema changes: the batch adds the column \<open>sexo\<close>
  in a transaction of its own, then a row statement violates \<open>NOT NULL\<close>; the fault
  reaches the caller and the new column is still there.
\<close>

theorem column_survives_failed_upsert_counterexample:
  "snd (upsert_rows second_call scenario_affinity null_key_batch None scenario_store)
     = Inl IntegrityError
   \<and> get_table_columns scenario_store
     = [''origem'', ''identificador_unidade'', ''created_at'', ''updated_at'', ''idade'']
   \<and> get_table_columns
        (fst (upsert_rows second_call scenario_affinity null_key_batch None scenario_store))
     = [''origem'', ''identificador_unidade'', ''created_at'', ''updated_at'', ''idade'',
        ''sexo'']"
  by code_simp

text \<open>
  C2, amended. The rows of a well-formed batch are written in one transaction, after the
  columns the batch needs were added in transactions of their own. When a row statement
  raises (a violated \<^verbatim>\<open>NOT NULL\<close>, an integer that does not fit), the rows written
  before it are rolled back: the call raises that same exception, and the store is the
  one \<open>ensure_columns_exist\<close> left. When \<open>ensure_columns_exist\<close> raises, the call raises
  the same exception, and the store is the one it left. So whenever the call raises, no
  row was added and every row reads as before in every column the table had and in every
  column outside the batch, while the columns added before the fault stay. When the call
  reports rows written, their number is the number of rows of the frame and the store is
  the result of executing the statement for every row of the batch without an exception.
\<close>

theorem upsert_rows_all_or_nothing:
  assumes "well_formed df" and "upsert_rows clock conv df pk conn = (conn', r)"
  shows "(\<forall>e. r = Inl e \<longrightarrow>
            e \<noteq> OutsideModel
            \<and> length (db_rows conn') = length (db_rows conn)
            \<and> (\<forall>i<length (db_rows conn). \<forall>c.
                  c \<in> set (get_table_columns conn) \<or> c \<notin> set (df_columns df)
                  \<longrightarrow> cell_at conn' i c = cell_at conn i c))
       \<and> (\<forall>c1 e. \<not> df_empty df \<and> missing_pk df (pk_or_default pk) = []
                \<and> ensure_columns_exist (df_columns df) conn = (c1, Inl e)
              \<longrightarrow> conn' = c1 \<and> r = Inl e)
       \<and> (\<forall>t1 tm e. \<not> df_empty df \<and> missing_pk df (pk_or_default pk) = []
                \<and> ensure_columns_exist (df_columns df) conn = (Some t1, Inr ())
                \<and> statement_compiles (columns_to_insert df)
                     (update_columns df (pk_or_default pk)) t1
                \<and> executemany clock conv 0 (columns_to_insert df)
                     (update_columns df (pk_or_default pk))
                     (df_select df (columns_to_insert df)) t1 = (tm, Some e)
              \<longrightarrow> conn' = Some t1 \<and> r = Inl e)
       \<and> (\<forall>n. r = Inr (RowsAffected n) \<longrightarrow>
            n = length (df_values df)
            \<and> (\<exists>t1 t2. ensure_columns_exist (df_columns df) conn = (Some t1, Inr ())
                  \<and> executemany clock conv 0 (columns_to_insert df)
                       (update_columns df (pk_or_default pk))
                       (df_select df (columns_to_insert df)) t1 = (t2, None)
                  \<and> conn' = Some t2))"
proof -
  have rolled_back: "length (db_rows c1) = length (db_rows conn)
       \<and> (\<forall>i<length (db_rows conn). \<forall>c.
              c \<in> set (get_table_columns conn) \<or> c \<notin> set (df_columns df)
              \<longrightarrow> cell_at c1 i c = cell_at conn i c)"
    if "ensure_columns_exist (df_columns df) conn = (c1, r1)" for c1 r1
    using ensure_columns_exist_rows [OF that]
    unfolding frame_def cell_at_def by auto
  have A: "\<forall>e. r = Inl e \<longrightarrow>
            e \<noteq> OutsideModel
            \<and> length (db_rows conn') = length (db_rows conn)
            \<and> (\<forall>i<length (db_rows conn). \<forall>c.
                  c \<in> set (get_table_columns conn) \<or> c \<notin> set (df_columns df)
                  \<longrightarrow> cell_at conn' i c = cell_at conn i c)"
  proof (intro allI impI)
    fix e assume e: "r = Inl e"
    from upsert_rows_modelled [OF assms] e have m: "e \<noteq> OutsideModel" by simp
    have "length (db_rows conn') = length (db_rows conn)
       \<and> (\<forall>i<length (db_rows conn). \<forall>c.
              c \<in> set (get_table_columns conn) \<or> c \<notin> set (df_columns df)
              \<longrightarrow> cell_at conn' i c = cell_at conn i c)"
    proof (cases rule: upsert_rows_cases [of df clock conv pk conn])
      case empty
      with assms e show ?thesis by auto
    next
      case missing
      with assms show ?thesis by auto
    next
      case (schema_fault conn1 e')
      with assms rolled_back [OF schema_fault(3)] show ?thesis by auto
    next
      case (write_fault conn1 mid e')
      with assms rolled_back [OF write_fault(3)] show ?thesis by auto
    next
      case (written t1 t2)
      with assms e show ?thesis by auto
    qed
    with m show "e \<noteq> OutsideModel
            \<and> length (db_rows conn') = length (db_rows conn)
            \<and> (\<forall>i<length (db_rows conn). \<forall>c.
                  c \<in> set (get_table_columns conn) \<or> c \<notin> set (df_columns df)
                  \<longrightarrow> cell_at conn' i c = cell_at conn i c)" by simp
  qed
  have B: "\<forall>c1 e. \<not> df_empty df \<and> missing_pk df (pk_or_default pk) = []
                \<and> ensure_columns_exist (df_columns df) conn = (c1, Inl e)
              \<longrightarrow> conn' = c1 \<and> r = Inl e"
  proof (intro allI impI)
    fix c1 e
    assume a: "\<not> df_empty df \<and> missing_pk df (pk_or_default pk) = []
                \<and> ensure_columns_exist (df_columns df) conn = (c1, Inl e)"
    then have "upsert_rows clock conv df pk conn = (c1, Inl e)"
      unfolding upsert_rows_def by simp
    with assms(2) show "conn' = c1 \<and> r = Inl e" by simp
  qed
  have C: "\<forall>t1 tm e. \<not> df_empty df \<and> missing_pk df (pk_or_default pk) = []
                \<and> ensure_columns_exist (df_columns df) conn = (Some t1, Inr ())
                \<and> statement_compiles (columns_to_insert df)
                     (update_columns df (pk_or_default pk)) t1
                \<and> executemany clock conv 0 (columns_to_insert df)
                     (update_columns df (pk_or_default pk))
                     (df_select df (columns_to_insert df)) t1 = (tm, Some e)
              \<longrightarrow> conn' = Some t1 \<and> r = Inl e"
  proof (intro allI impI)
    fix t1 tm e
    assume a: "\<not> df_empty df \<and> missing_pk df (pk_or_default pk) = []
                \<and> ensure_columns_exist (df_columns df) conn = (Some t1, Inr ())
                \<and> statement_compiles (columns_to_insert df)
                     (update_columns df (pk_or_default pk)) t1
                \<and> executemany clock conv 0 (columns_to_insert df)
                     (update_columns df (pk_or_default pk))
                     (df_select df (columns_to_insert df)) t1 = (tm, Some e)"
    from row_fault_rolled_back [OF assms(1), of pk conn t1 clock conv tm e] a
    have "upsert_rows clock conv df pk conn = (Some t1, Inl e)" by simp
    with assms(2) show "conn' = Some t1 \<and> r = Inl e" by simp
  qed
  have D: "\<forall>n. r = Inr (RowsAffected n) \<longrightarrow>
            n = length (df_values df)
            \<and> (\<exists>t1 t2. ensure_columns_exist (df_columns df) conn = (Some t1, Inr ())
                  \<and> executemany clock conv 0 (columns_to_insert df)
                       (update_columns df (pk_or_default pk))
                       (df_select df (columns_to_insert df)) t1 = (t2, None)
                  \<and> conn' = Some t2)"
  proof (intro allI impI)
    fix n assume n: "r = Inr (RowsAffected n)"
    show "n = length (df_values df)
            \<and> (\<exists>t1 t2. ensure_columns_exist (df_columns df) conn = (Some t1, Inr ())
                  \<and> executemany clock conv 0 (columns_to_insert df)
                       (update_columns df (pk_or_default pk))
                       (df_select df (columns_to_insert df)) t1 = (t2, None)
                  \<and> conn' = Some t2)"
    proof (cases rule: upsert_rows_cases [of df clock conv pk conn])
      case empty
      with assms n show ?thesis by auto
    next
      case missing
      with assms n show ?thesis by auto
    next
      case (schema_fault conn1 e')
      with assms n show ?thesis by auto
    next
      case (write_fault conn1 mid e')
      with assms n show ?thesis by auto
    next
      case (written t1 t2)
      with assms n have "n = length (df_values df)" "conn' = Some t2" by simp_all
      with written(3,5) show ?thesis by blast
    qed
  qed
  from A B C D show ?thesis by (intro conjI)
qed

theorem upsert_rows_all_or_nothing_witness:
  "well_formed null_key_batch
   \<and> \<not> df_empty null_key_batch \<and> missing_pk null_key_batch (pk_or_default None) = []
   \<and> ensure_columns_exist (df_columns null_key_batch) scenario_store
       = (Some scenario_with_sexo, Inr ())
   \<and> snd (executemany second_call scenario_affinity 0 (columns_to_insert null_key_batch)
            (update_columns null_key_batch (pk_or_default None))
            (df_select null_key_batch (columns_to_insert null_key_batch)) scenario_with_sexo)
       = Some IntegrityError
   \<and> length (tbl_rows (fst (executemany second_call scenario_affinity 0
            (columns_to_insert null_key_batch)
            (update_columns null_key_batch (pk_or_default None))
            (df_select null_key_batch (columns_to_insert null_key_batch)) scenario_with_sexo)))
       = 3
   \<and> upsert_rows second_call scenario_affinity null_key_batch None scenario_store
       = (Some scenario_with_sexo, Inl IntegrityError)
   \<and> length (db_rows (Some scenario_with_sexo)) = 2
   \<and> cell_at (Some scenario_with_sexo) 1 ''idade'' = IntV 28
   \<and> well_formed scenario_second_batch
   \<and> snd (upsert_rows second_call scenario_affinity scenario_second_batch None scenario_store)
       = Inr (RowsAffected (length (df_values scenario_second_batch)))"
proof -
  let ?ins = "columns_to_insert null_key_batch"
  let ?upd = "update_columns null_key_batch (pk_or_default None)"
  let ?vals = "df_select null_key_batch (columns_to_insert null_key_batch)"
  let ?run = "executemany second_call scenario_affinity 0 ?ins ?upd ?vals scenario_with_sexo"
  obtain c r where u: "upsert_rows second_call scenario_affinity null_key_batch None
      scenario_store = (c, r)"
    by (cases "upsert_rows second_call scenario_affinity null_key_batch None scenario_store")
  have w: "well_formed null_key_batch" "well_formed scenario_second_batch" by code_simp+
  have h: "\<not> df_empty null_key_batch \<and> missing_pk null_key_batch (pk_or_default None) = []"
    by code_simp
  have e: "ensure_columns_exist (df_columns null_key_batch) scenario_store
       = (Some scenario_with_sexo, Inr ())" by code_simp
  have sc: "statement_compiles ?ins ?upd scenario_with_sexo" by code_simp
  have x: "?run = (fst ?run, Some IntegrityError)" by code_simp
  have p: "length (tbl_rows (fst ?run)) = 3" by code_simp
  have l: "1 < length (db_rows scenario_store) \<and> length (db_rows scenario_store) = 2
     \<and> ''idade'' \<in> set (get_table_columns scenario_store)
     \<and> cell_at scenario_store 1 ''idade'' = IntV 28"
    by code_simp
  note t = upsert_rows_all_or_nothing [OF w(1) u]
  from t h e sc x have cr: "c = Some scenario_with_sexo \<and> r = Inl IntegrityError" by blast
  with t have "length (db_rows c) = length (db_rows scenario_store)
      \<and> (\<forall>i<length (db_rows scenario_store). \<forall>c'.
            c' \<in> set (get_table_columns scenario_store) \<or> c' \<notin> set (df_columns null_key_batch)
            \<longrightarrow> cell_at c i c' = cell_at scenario_store i c')"
    by blast
  with l cr have f: "length (db_rows (Some scenario_with_sexo)) = 2
     \<and> cell_at (Some scenario_with_sexo) 1 ''idade'' = IntV 28" by simp
  have s: "upsert_rows second_call scenario_affinity scenario_second_batch None scenario_store
      = (fst (upsert_rows second_call scenario_affinity scenario_second_batch None
                scenario_store), Inr (RowsAffected 1))" by code_simp
  from upsert_rows_all_or_nothing [OF w(2) s]
  have "1 = length (df_values scenario_second_batch)" by blast
  with s have g: "snd (upsert_rows second_call scenario_affinity scenario_second_batch None
       scenario_store) = Inr (RowsAffected (length (df_values scenario_second_batch)))"
    by (simp add: prod_eq_iff)
  from x have x': "snd ?run = Some IntegrityError" by (simp add: prod_eq_iff)
  from w h e x' p u cr f g show ?thesis by simp
qed

subsection \<open>Idempotent schema operations (C8)\<close>

text \<open>
  C8. \<open>ensure_table_exists\<close> and \<open>add_column_if_not_exists\<close> are idempotent: on every
  store, and whatever name and type are asked, a second call returns the store of the
  first. On a store without the table, \<open>ensure_table_exists\<close> creates it empty, with the
  columns \<open>origem\<close>, \<open>identificador_unidade\<close>, \<open>created_at\<close>, \<open>updated_at\<close> and no
  other, the first two \<open>NOT NULL\<close> and forming the primary key, the last two with the
  default \<^verbatim>\<open>CURRENT_TIMESTAMP\<close>.
\<close>

theorem schema_operations_idempotent:
  "fst (ensure_table_exists (fst (ensure_table_exists conn))) = fst (ensure_table_exists conn)
   \<and> fst (add_column_if_not_exists n ty (fst (add_column_if_not_exists n ty conn)))
       = fst (add_column_if_not_exists n ty conn)
   \<and> ensure_table_exists None = (Some pns_respostas, Inr ())
   \<and> column_names pns_respostas
       = [''origem'', ''identificador_unidade'', ''created_at'', ''updated_at'']
   \<and> map col_name (filter col_notnull (tbl_columns pns_respostas))
       = [''origem'', ''identificador_unidade'']
   \<and> tbl_pk pns_respostas = [''origem'', ''identificador_unidade'']
   \<and> map col_name (filter col_default_now (tbl_columns pns_respostas))
       = [''created_at'', ''updated_at'']
   \<and> tbl_rows pns_respostas = []"
proof -
  have t: "fst (ensure_table_exists (fst (ensure_table_exists conn)))
             = fst (ensure_table_exists conn)"
    unfolding ensure_table_exists_def table_exists_def get_connection_def
      sql_create_table_if_not_exists_def
    by (cases conn) simp_all
  obtain c1 r1 where a: "add_column_if_not_exists n ty conn = (c1, r1)"
    by (cases "add_column_if_not_exists n ty conn")
  from a have c: "fst (add_column_if_not_exists n ty c1) = c1"
  proof (cases rule: add_column_cases)
    case present
    with a show ?thesis by simp
  next
    case (failed e)
    with a show ?thesis by simp
  next
    case added
    from set_map_update_cols [OF added(4)] have "n \<in> set (get_table_columns c1)" by simp
    then show ?thesis unfolding add_column_if_not_exists_def by simp
  qed
  have e: "ensure_table_exists None = (Some pns_respostas, Inr ())"
    unfolding ensure_table_exists_def table_exists_def get_connection_def
      sql_create_table_if_not_exists_def by simp
  have p: "column_names pns_respostas
       = [''origem'', ''identificador_unidade'', ''created_at'', ''updated_at'']
   \<and> map col_name (filter col_notnull (tbl_columns pns_respostas))
       = [''origem'', ''identificador_unidade'']
   \<and> tbl_pk pns_respostas = [''origem'', ''identificador_unidade'']
   \<and> map col_name (filter col_default_now (tbl_columns pns_respostas))
       = [''created_at'', ''updated_at'']
   \<and> tbl_rows pns_respostas = []"
    unfolding pns_respostas_def column_names_def by simp
  from t c a e p show ?thesis by simp
qed

subsection \<open>Column types (C4)\<close>

lemma db_schema_Some: "db_schema (Some t) = tbl_columns t"
  unfolding db_schema_def by simp

lemma ensure_columns_exist_schema:
  assumes "ensure_columns_exist names conn = (conn', r)"
  shows "\<exists>added. db_schema conn' = db_schema conn @ map (\<lambda>c. new_column c (infer_col_type c)) added
      \<and> distinct added
      \<and> set added \<subseteq> set names - set reserved_columns - set (get_table_columns conn)
      \<and> (r = Inr () \<longrightarrow> set names \<subseteq> set reserved_columns \<union> set (get_table_columns conn'))"
proof -
  from loop_schema [of "get_table_columns conn" names conn conn' r] assms
  obtain added where a:
    "db_schema conn' = db_schema conn @ map (\<lambda>c. new_column c (infer_col_type c)) added"
    "distinct added"
    "set added \<subseteq> set names - set reserved_columns - set (get_table_columns conn)"
    "r = Inr () \<longrightarrow> set names \<subseteq> set (get_table_columns conn) \<union> set reserved_columns
                                  \<union> set (get_table_columns conn')"
    unfolding ensure_columns_exist_def by blast
  from a(1) have "set (get_table_columns conn) \<subseteq> set (get_table_columns conn')"
    unfolding get_table_columns_schema by auto
  with a(4) have "r = Inr () \<longrightarrow> set names \<subseteq> set reserved_columns \<union> set (get_table_columns conn')"
    by auto
  with a(1,2,3) show ?thesis by blast
qed

lemma ensure_columns_exist_prefix:
  "prefix (db_schema conn) (db_schema (fst (ensure_columns_exist names conn)))"
proof -
  obtain conn' r where e: "ensure_columns_exist names conn = (conn', r)"
    by (cases "ensure_columns_exist names conn")
  from ensure_columns_exist_schema [OF e] show ?thesis
    unfolding e by (auto simp: prefix_def)
qed

lemma upsert_rows_prefix:
  "prefix (db_schema conn) (db_schema (fst (upsert_rows clock conv df pk conn)))"
proof (cases rule: upsert_rows_cases [of df clock conv pk conn])
  case empty
  then show ?thesis by simp
next
  case missing
  then show ?thesis by simp
next
  case (schema_fault conn1 e)
  with ensure_columns_exist_prefix [of conn "df_columns df"] show ?thesis by simp
next
  case (write_fault conn1 mid e)
  with ensure_columns_exist_prefix [of conn "df_columns df"] show ?thesis by simp
next
  case (written t1 t2)
  from executemany_frame [OF written(5)] have "tbl_columns t2 = tbl_columns t1" by simp
  with ensure_columns_exist_prefix [of conn "df_columns df"] written(3,6)
  show ?thesis by (simp add: db_schema_Some)
qed

lemma filter_new_columns:
  "distinct xs \<Longrightarrow> c \<in> set xs \<Longrightarrow>
   filter (\<lambda>col. col_name col = c) (map (\<lambda>x. new_column x (f x)) xs) = [new_column c (f c)]"
proof (induction xs)
  case Nil
  then show ?case by simp
next
  case (Cons x xs)
  have none: "filter (\<lambda>col. col_name col = c) (map (\<lambda>x. new_column x (f x)) ys) = []"
    if "c \<notin> set ys" for ys
    using that by (induction ys) (auto simp: new_column_def)
  show ?case
  proof (cases "x = c")
    case True
    with Cons.prems have "c \<notin> set xs" by simp
    from none [OF this] True show ?thesis by (simp add: new_column_def)
  next
    case False
    with Cons show ?thesis by (simp add: new_column_def)
  qed
qed

lemma added_column_typed:
  assumes "ensure_columns_exist names conn = (conn', Inr ())"
    and "c \<in> set names" and "c \<notin> set (get_table_columns conn)" and "c \<notin> set reserved_columns"
  shows "filter (\<lambda>col. col_name col = c) (db_schema conn') = [new_column c (infer_col_type c)]"
proof -
  from ensure_columns_exist_schema [OF assms(1)] obtain added where a:
    "db_schema conn' = db_schema conn @ map (\<lambda>c. new_column c (infer_col_type c)) added"
    "distinct added"
    "set names \<subseteq> set reserved_columns \<union> set (get_table_columns conn')"
    by blast
  from a(3) assms(2,4) have "c \<in> set (get_table_columns conn')" by auto
  with a(1) assms(3) have "c \<in> set added"
    unfolding get_table_columns_schema by (auto simp: new_column_def)
  from filter_new_columns [OF a(2) this, of infer_col_type]
  have f: "filter (\<lambda>col. col_name col = c) (map (\<lambda>c. new_column c (infer_col_type c)) added)
          = [new_column c (infer_col_type c)]" .
  from assms(3) have "filter (\<lambda>col. col_name col = c) (db_schema conn) = []"
    unfolding get_table_columns_schema by (auto simp: filter_empty_conv)
  with f a(1) show ?thesis by simp
qed

lemma lower_at: "lower ''_at'' = ''_at''"
  by code_simp

lemma keywords_apart_from_at:
  "list_all (\<lambda>k. \<not> suffix ''_at'' k \<and> \<not> suffix k ''_at'') integer_keywords"
  by code_simp

lemma timestamps_end_in_at: "c \<in> set timestamp_columns \<Longrightarrow> suffix ''_at'' c"
proof -
  have "list_all (suffix ''_at'') timestamp_columns" by code_simp
  then show "c \<in> set timestamp_columns \<Longrightarrow> suffix ''_at'' c" by (simp add: list_all_iff)
qed

lemma infer_col_type_policy:
  "infer_col_type c =
     (if suffix ''_at'' c then ''DATETIME''
      else if list_ex (\<lambda>k. sublist k (lower c)) integer_keywords then ''INTEGER''
      else if list_ex (\<lambda>k. sublist k (lower c)) real_keywords then ''REAL''
      else ''TEXT'')"
  unfolding infer_col_type_def using timestamps_end_in_at [of c] by auto

lemma ends_in_integer_keyword:
  assumes "list_ex (\<lambda>k. suffix k (lower c)) integer_keywords"
  shows "infer_col_type c = ''INTEGER''"
proof -
  from assms obtain k where k: "k \<in> set integer_keywords" "suffix k (lower c)"
    by (auto simp: list_ex_iff)
  from k(1) keywords_apart_from_at have apart: "\<not> suffix ''_at'' k" "\<not> suffix k ''_at''"
    by (simp_all add: list_all_iff)
  have no_at: "\<not> suffix ''_at'' c"
  proof
    assume "suffix ''_at'' c"
    then have "suffix (lower ''_at'') (lower c)"
      unfolding lower_def by (rule map_mono_suffix)
    then have "suffix ''_at'' (lower c)" by (simp only: lower_at)
    from suffix_same_cases [OF this k(2)] apart show False by blast
  qed
  from k have "list_ex (\<lambda>k. sublist k (lower c)) integer_keywords"
    by (auto simp: list_ex_iff)
  with no_at show ?thesis by (simp add: infer_col_type_policy)
qed

text \<open>
  C4, as the claim states it, fails: \<open>checked_at\<close> is new, not reserved, ends in none of
  the integer words and mentions none of the monetary or weight words, and yet its
  column is not \<open>TEXT\<close> but \<open>DATETIME\<close>.
\<close>

theorem at_suffix_gives_datetime_counterexample:
  "''checked_at'' \<notin> set reserved_columns
   \<and> ''checked_at'' \<notin> set (get_table_columns (Some pns_respostas))
   \<and> plain_identifier ''checked_at''
   \<and> \<not> list_ex (\<lambda>k. suffix k (lower ''checked_at'')) integer_keywords
   \<and> \<not> list_ex (\<lambda>k. sublist k (lower ''checked_at'')) real_keywords
   \<and> ensure_columns_exist [''checked_at''] (Some pns_respostas)
       = (Some (pns_respostas\<lparr>tbl_columns :=
                  tbl_columns pns_respostas @ [new_column ''checked_at'' ''DATETIME'']\<rparr>),
          Inr ())"
  by code_simp

lemma renda_scenario:
  "db_schema (fst (upsert_rows second_call scenario_affinity renda_batch None scenario_store))
     = db_schema scenario_store @ [new_column ''renda_per_capita'' ''REAL'']
   \<and> db_schema (fst (upsert_rows third_call scenario_affinity renda_batch None
         (fst (upsert_rows second_call scenario_affinity renda_batch None scenario_store))))
     = db_schema (fst (upsert_rows second_call scenario_affinity renda_batch None
         scenario_store))"
  by code_simp

text \<open>
  C4, amended. The type of a column is inferred from its name alone and only when
  \<open>ensure_columns_exist\<close> adds it: a name ending in \<open>_at\<close> gets \<open>DATETIME\<close>; otherwise a
  name that contains, in any letter case, one of \<open>idade\<close>, \<open>anos\<close>, \<open>filhos\<close>, \<open>count\<close>
  (in particular a name ending in one of them) gets \<open>INTEGER\<close>; otherwise a name that
  contains one of \<open>peso\<close>, \<open>renda\<close>, \<open>per_capita\<close> gets \<open>REAL\<close>; every other name gets
  \<open>TEXT\<close>. When the names asked for are plain identifiers, a successful
  \<open>ensure_columns_exist\<close> leaves exactly one column for every new name that is not
  reserved, nullable and of the inferred type. The columns a store has stay as they are,
  in place, name and type, under \<open>ensure_columns_exist\<close> and under \<open>upsert_rows\<close>.
  Upserting the batch with the unseen column \<open>renda_per_capita\<close> appends that column
  once, typed \<open>REAL\<close>, and a second upsert of the batch leaves the schema as it is.
\<close>

theorem column_type_inferred_once_by_name:
  "(prefix (db_schema conn) (db_schema (fst (ensure_columns_exist names conn)))
    \<and> prefix (db_schema conn) (db_schema (fst (upsert_rows clock conv df pk conn))))
   \<and> (list_all plain_identifier names \<and> snd (ensure_columns_exist names conn) = Inr () \<longrightarrow>
        (\<forall>n\<in>set names. n \<notin> set (get_table_columns conn) \<and> n \<notin> set reserved_columns \<longrightarrow>
           filter (\<lambda>col. col_name col = n) (db_schema (fst (ensure_columns_exist names conn)))
             = [new_column n (infer_col_type n)]))
   \<and> infer_col_type c =
        (if suffix ''_at'' c then ''DATETIME''
         else if list_ex (\<lambda>k. sublist k (lower c)) integer_keywords then ''INTEGER''
         else if list_ex (\<lambda>k. sublist k (lower c)) real_keywords then ''REAL''
         else ''TEXT'')
   \<and> (list_ex (\<lambda>k. suffix k (lower c)) integer_keywords \<longrightarrow> infer_col_type c = ''INTEGER'')
   \<and> db_schema (fst (upsert_rows second_call scenario_affinity renda_batch None scenario_store))
       = db_schema scenario_store @ [new_column ''renda_per_capita'' ''REAL'']
   \<and> db_schema (fst (upsert_rows third_call scenario_affinity renda_batch None
         (fst (upsert_rows second_call scenario_affinity renda_batch None scenario_store))))
       = db_schema (fst (upsert_rows second_call scenario_affinity renda_batch None
           scenario_store))"
proof -
  have typed: "list_all plain_identifier names
        \<and> snd (ensure_columns_exist names conn) = Inr () \<longrightarrow>
        (\<forall>n\<in>set names. n \<notin> set (get_table_columns conn) \<and> n \<notin> set reserved_columns \<longrightarrow>
           filter (\<lambda>col. col_name col = n) (db_schema (fst (ensure_columns_exist names conn)))
             = [new_column n (infer_col_type n)])"
  proof (intro impI ballI)
    fix n
    assume ok: "list_all plain_identifier names
        \<and> snd (ensure_columns_exist names conn) = Inr ()"
      and n: "n \<in> set names" "n \<notin> set (get_table_columns conn) \<and> n \<notin> set reserved_columns"
    from ok have e: "ensure_columns_exist names conn
        = (fst (ensure_columns_exist names conn), Inr ())"
      by (simp add: prod_eq_iff)
    from added_column_typed [OF e n(1)] n(2)
    show "filter (\<lambda>col. col_name col = n) (db_schema (fst (ensure_columns_exist names conn)))
             = [new_column n (infer_col_type n)]" by simp
  qed
  from ensure_columns_exist_prefix [of conn names] upsert_rows_prefix [of conn clock conv df pk]
    typed infer_col_type_policy [of c] ends_in_integer_keyword [of c] renda_scenario
  show ?thesis by blast
qed

theorem column_type_inferred_once_by_name_witness:
  "list_all plain_identifier [''renda_per_capita'', ''sexo'']
   \<and> snd (ensure_columns_exist [''renda_per_capita'', ''sexo''] scenario_store) = Inr ()
   \<and> ''renda_per_capita'' \<in> set [''renda_per_capita'', ''sexo'']
   \<and> ''renda_per_capita'' \<notin> set (get_table_columns scenario_store)
   \<and> ''renda_per_capita'' \<notin> set reserved_columns
   \<and> filter (\<lambda>col. col_name col = ''renda_per_capita'')
        (db_schema (fst (ensure_columns_exist [''renda_per_capita'', ''sexo''] scenario_store)))
       = [new_column ''renda_per_capita'' ''REAL'']
   \<and> list_ex (\<lambda>k. suffix k (lower ''Anos_Estudo_ANOS'')) integer_keywords
   \<and> infer_col_type ''Anos_Estudo_ANOS'' = ''INTEGER''"
proof -
  let ?names = "[''renda_per_capita'', ''sexo'']"
  have h0: "list_all plain_identifier ?names" by code_simp
  have h1: "snd (ensure_columns_exist ?names scenario_store) = Inr ()" by code_simp
  have h2: "''renda_per_capita'' \<in> set ?names
     \<and> ''renda_per_capita'' \<notin> set (get_table_columns scenario_store)
     \<and> ''renda_per_capita'' \<notin> set reserved_columns" by code_simp
  have h3: "list_ex (\<lambda>k. suffix k (lower ''Anos_Estudo_ANOS'')) integer_keywords" by code_simp
  have h4: "infer_col_type ''renda_per_capita'' = ''REAL''" by code_simp
  note t = column_type_inferred_once_by_name
             [of scenario_store ?names second_call scenario_affinity renda_batch None
                 "''Anos_Estudo_ANOS''"]
  from t h0 h1 h2 have "filter (\<lambda>col. col_name col = ''renda_per_capita'')
        (db_schema (fst (ensure_columns_exist ?names scenario_store)))
       = [new_column ''renda_per_capita'' (infer_col_type ''renda_per_capita'')]" by blast
  moreover from t h3 have "infer_col_type ''Anos_Estudo_ANOS'' = ''INTEGER''" by blast
  ultimately show ?thesis using h0 h1 h2 h3 h4 by simp
qed

subsection \<open>A frame without its timestamp columns\<close>

lemma columns_to_insert_drop:
  "columns_to_insert (drop_timestamps df) = columns_to_insert df"
  unfolding drop_timestamps_def columns_to_insert_def by simp

lemma cell_of_zip_map:
  "c \<in> set cs \<Longrightarrow> cell_of (zip cs (map f cs)) c = f c"
  unfolding cell_of_def by (simp add: map_of_zip_map)

lemma df_select_drop:
  "df_select (drop_timestamps df) (columns_to_insert df) = df_select df (columns_to_insert df)"
proof -
  have "map (\<lambda>c. cell_of (zip cs (map f cs)) c) cs = map f cs" for cs and f :: "string \<Rightarrow> cell"
    by (rule map_cong) (simp_all add: cell_of_zip_map)
  then show ?thesis
    unfolding drop_timestamps_def df_select_def by (simp add: comp_def)
qed

lemma update_columns_drop:
  "update_columns (drop_timestamps df) pk = update_columns df pk"
  unfolding update_columns_def columns_to_insert_drop ..

lemma missing_pk_drop:
  assumes "set pk \<inter> set timestamp_columns = {}"
  shows "missing_pk (drop_timestamps df) pk = missing_pk df pk"
proof -
  have "c \<notin> set (columns_to_insert df) \<longleftrightarrow> c \<notin> set (df_columns df)" if "c \<in> set pk" for c
    using that assms unfolding set_columns_to_insert by auto
  then show ?thesis
    unfolding missing_pk_def drop_timestamps_def by (auto intro: filter_cong)
qed

lemma loop_skips_timestamps:
  "ensure_columns_loop ex (filter (\<lambda>c. c \<notin> set timestamp_columns) names) conn
     = ensure_columns_loop ex names conn"
proof (induction names arbitrary: conn)
  case Nil
  show ?case by simp
next
  case (Cons c cs)
  show ?case
  proof (cases "c \<in> set timestamp_columns")
    case True
    with timestamps_reserved have "c \<in> set reserved_columns" by blast
    with True Cons.IH show ?thesis by simp
  next
    case False
    with Cons.IH show ?thesis by (simp split: prod.splits sum.splits)
  qed
qed

lemma ensure_columns_exist_drop:
  "ensure_columns_exist (columns_to_insert df) conn = ensure_columns_exist (df_columns df) conn"
  unfolding ensure_columns_exist_def columns_to_insert_def by (rule loop_skips_timestamps)

lemma df_values_drop: "df_values (drop_timestamps df) = [] \<longleftrightarrow> df_values df = []"
  unfolding drop_timestamps_def df_select_def by simp

lemma df_columns_drop: "df_columns (drop_timestamps df) = columns_to_insert df"
  unfolding drop_timestamps_def by simp

lemma upsert_rows_drop_same:
  assumes "set (pk_or_default pk) \<inter> set timestamp_columns = {}"
    and "columns_to_insert df \<noteq> []"
  shows "upsert_rows clock conv (drop_timestamps df) pk conn = upsert_rows clock conv df pk conn"
proof -
  from assms(2) have "df_columns df \<noteq> []" unfolding columns_to_insert_def by auto
  with assms(2) have e: "df_empty (drop_timestamps df) = df_empty df"
    unfolding df_empty_def df_columns_drop df_values_drop by simp
  show ?thesis
    unfolding upsert_rows_def e missing_pk_drop [OF assms(1)] df_columns_drop
      ensure_columns_exist_drop columns_to_insert_drop update_columns_drop df_select_drop ..
qed

lemma upsert_rows_only_timestamps:
  assumes "set (pk_or_default pk) \<inter> set timestamp_columns = {}"
    and "columns_to_insert df = []"
  shows "fst (upsert_rows clock conv df pk conn) = conn"
proof (cases rule: upsert_rows_cases [of df clock conv pk conn])
  case empty
  then show ?thesis by simp
next
  case missing
  then show ?thesis by simp
next
  case (schema_fault conn1 e)
  from schema_fault(3) have "ensure_columns_exist (columns_to_insert df) conn = (conn1, Inl e)"
    by (simp only: ensure_columns_exist_drop)
  with assms(2) show ?thesis unfolding ensure_columns_exist_def by simp
next
  case (write_fault conn1 mid e)
  from write_fault(3) have "ensure_columns_exist (columns_to_insert df) conn = (conn1, Inr ())"
    by (simp only: ensure_columns_exist_drop)
  with assms(2) have "conn1 = conn" unfolding ensure_columns_exist_def by simp
  with write_fault(5) show ?thesis by simp
next
  case (written t1 t2)
  from written(4) assms(2) show ?thesis unfolding statement_compiles_def by simp
qed

subsection \<open>Timestamps supplied by the caller (C10)\<close>

text \<open>
  C10, as the claim states it, fails in two cases. When the key columns the caller asks
  for name a timestamp column, the frame with its timestamp columns is written and the
  same frame without them fails the key check, so the stores differ. And a frame that
  has timestamp columns only fails the key check, while without them it is an empty
  frame and the call returns after the warning.
\<close>

theorem timestamp_in_key_counterexample:
  "snd (upsert_rows second_call scenario_affinity stamped_batch timestamp_key scenario_store)
     = Inr (RowsAffected 1)
   \<and> cell_at (fst (upsert_rows second_call scenario_affinity stamped_batch timestamp_key
        scenario_store)) 0 ''idade'' = IntV 31
   \<and> upsert_rows second_call scenario_affinity (drop_timestamps stamped_batch) timestamp_key
        scenario_store = (scenario_store, Inl (ValueError [''created_at'']))
   \<and> cell_at scenario_store 0 ''idade'' = IntV 30
   \<and> upsert_rows second_call scenario_affinity timestamp_only_batch None scenario_store
       = (scenario_store, Inl (ValueError [''origem'', ''identificador_unidade'']))
   \<and> upsert_rows second_call scenario_affinity (drop_timestamps timestamp_only_batch) None
        scenario_store = (scenario_store, Inr EmptyBatch)"
  by code_simp

text \<open>
  C10, amended. When the frame is well formed and the key columns asked for are not the
  timestamp columns themselves (as with the default key), an upsert of a frame and an
  upsert of the same frame without its \<open>created_at\<close> and \<open>updated_at\<close> columns return
  the same store; they also report the same, unless the frame has no other column at
  all, in which case neither call writes. Whatever the frame supplies, a timestamp cell
  of the store after the call is the time of one of the statements of the call or the
  cell the row had before.
\<close>

theorem supplied_timestamps_ignored:
  assumes "well_formed df" and "set (pk_or_default pk) \<inter> set timestamp_columns = {}"
  shows "fst (upsert_rows clock conv df pk conn)
           = fst (upsert_rows clock conv (drop_timestamps df) pk conn)
       \<and> (columns_to_insert df \<noteq> [] \<longrightarrow>
            upsert_rows clock conv df pk conn
              = upsert_rows clock conv (drop_timestamps df) pk conn)
       \<and> (columns_to_insert df = [] \<longrightarrow> fst (upsert_rows clock conv df pk conn) = conn)
       \<and> (\<forall>i<length (db_rows (fst (upsert_rows clock conv df pk conn))).
             \<forall>c\<in>set timestamp_columns.
               (\<exists>j<length (df_values df).
                   cell_at (fst (upsert_rows clock conv df pk conn)) i c = TextV (clock j))
               \<or> (i < length (db_rows conn)
                  \<and> cell_at (fst (upsert_rows clock conv df pk conn)) i c = cell_at conn i c))"
proof -
  have stamps: "\<forall>i<length (db_rows (fst (upsert_rows clock conv df pk conn))).
             \<forall>c\<in>set timestamp_columns.
               (\<exists>j<length (df_values df).
                   cell_at (fst (upsert_rows clock conv df pk conn)) i c = TextV (clock j))
               \<or> (i < length (db_rows conn)
                  \<and> cell_at (fst (upsert_rows clock conv df pk conn)) i c = cell_at conn i c)"
    using upsert_rows_stamps [of _ _ clock conv df pk conn] by blast
  show ?thesis
  proof (cases "columns_to_insert df = []")
    case True
    then have "df_empty (drop_timestamps df)"
      unfolding df_empty_def df_columns_drop by simp
    then have "fst (upsert_rows clock conv (drop_timestamps df) pk conn) = conn"
      unfolding upsert_rows_def by simp
    with upsert_rows_only_timestamps [OF assms(2) True, of clock conv conn] True stamps
    show ?thesis by simp
  next
    case False
    from upsert_rows_drop_same [OF assms(2) False, of clock conv conn] False stamps
    show ?thesis by simp
  qed
qed

theorem supplied_timestamps_ignored_witness:
  "well_formed stamped_batch
   \<and> set (pk_or_default None) \<inter> set timestamp_columns = {}
   \<and> columns_to_insert stamped_batch \<noteq> []
   \<and> drop_timestamps stamped_batch = scenario_second_batch
   \<and> upsert_rows second_call scenario_affinity stamped_batch None scenario_store
       = upsert_rows second_call scenario_affinity scenario_second_batch None scenario_store
   \<and> cell_at (fst (upsert_rows second_call scenario_affinity stamped_batch None scenario_store))
        0 ''created_at'' = TextV ''2024-01-01 10:00:00''
   \<and> cell_at (fst (upsert_rows second_call scenario_affinity stamped_batch None scenario_store))
        0 ''updated_at'' = TextV ''2024-01-02 09:30:00''"
proof -
  have w: "well_formed stamped_batch" by code_simp
  have h: "set (pk_or_default None) \<inter> set timestamp_columns = {}" by code_simp
  have n: "columns_to_insert stamped_batch \<noteq> []" by code_simp
  have d: "drop_timestamps stamped_batch = scenario_second_batch" by code_simp
  have v: "cell_at (fst (upsert_rows second_call scenario_affinity scenario_second_batch None
               scenario_store)) 0 ''created_at'' = TextV ''2024-01-01 10:00:00''
     \<and> cell_at (fst (upsert_rows second_call scenario_affinity scenario_second_batch None
               scenario_store)) 0 ''updated_at'' = TextV ''2024-01-02 09:30:00''" by code_simp
  from supplied_timestamps_ignored
         [OF w h, of second_call scenario_affinity scenario_store] n d
  have "upsert_rows second_call scenario_affinity stamped_batch None scenario_store
       = upsert_rows second_call scenario_affinity scenario_second_batch None scenario_store"
    by simp
  with w h n d v show ?thesis by simp
qed

subsection \<open>The timestamps of written rows (C3)\<close>

lemma touched_mono: "touched k T rs \<Longrightarrow> T \<subseteq> T' \<Longrightarrow> touched k T' rs"
  unfolding touched_def by blast

lemma conflicts_key: "conflicts new r \<Longrightarrow> key_of r = key_of new"
  unfolding conflicts_def by simp

lemma upsert_row_other_key:
  assumes "sql_upsert_row now conv ins upd vals t = Inr t'"
    and "key_of (insert_row now conv ins vals t) \<noteq> k"
    and "touched k T (tbl_rows t)"
  shows "touched k T (tbl_rows t')"
  using assms(1)
proof (cases rule: upsert_row_cases)
  case updated
  let ?new = "insert_row now conv ins vals t"
  let ?f = "\<lambda>r. if conflicts ?new r then do_update now upd ?new r else r"
  have same: "?f r = r" if "key_of r = k" for r
    using that assms(2) conflicts_key [of ?new r] by auto
  have key: "key_of (?f r) = key_of r" for r by (simp add: key_of_do_update)
  from assms(3) obtain r0 where r0: "r0 \<in> set (tbl_rows t)" "key_of r0 = k"
    unfolding touched_def by blast
  from assms(3) have old: "\<And>r. r \<in> set (tbl_rows t) \<Longrightarrow> key_of r = k \<Longrightarrow>
      \<exists>s\<in>T. cell_of r ''updated_at'' = TextV s"
    unfolding touched_def by blast
  from r0 same [OF r0(2)] have "r0 \<in> set (map ?f (tbl_rows t))" by force
  with r0(2) have one: "\<exists>r\<in>set (map ?f (tbl_rows t)). key_of r = k" by blast
  have all: "\<exists>s\<in>T. cell_of r' ''updated_at'' = TextV s"
    if "r' \<in> set (map ?f (tbl_rows t))" "key_of r' = k" for r'
  proof -
    from that(1) obtain r where r: "r \<in> set (tbl_rows t)" "r' = ?f r" by auto
    from r(2) that(2) key [of r] have kr: "key_of r = k" by simp
    from same [OF kr] r(2) have "r' = r" by simp
    with old [OF r(1) kr] show ?thesis by simp
  qed
  from one all have "touched k T (map ?f (tbl_rows t))" unfolding touched_def by blast
  then show ?thesis unfolding updated(2) by simp
next
  case inserted
  from assms(2,3) have "touched k T (tbl_rows t @ [insert_row now conv ins vals t])"
    unfolding touched_def by auto
  then show ?thesis unfolding inserted(2) by simp
qed

lemma touched_mapI:
  assumes key: "\<And>r. key_of (f r) = key_of r"
    and ex: "\<exists>r\<in>set rs. key_of r = k"
    and upd: "\<And>r. r \<in> set rs \<Longrightarrow> key_of r = k \<Longrightarrow> cell_of (f r) ''updated_at'' = TextV now"
  shows "touched k {now} (map f rs)"
proof -
  from ex obtain r0 where r0: "r0 \<in> set rs" "key_of r0 = k" by blast
  then have "f r0 \<in> set (map f rs)" "key_of (f r0) = k" using key by simp_all
  then have one: "\<exists>r\<in>set (map f rs). key_of r = k" by blast
  have all: "cell_of r' ''updated_at'' = TextV now"
    if "r' \<in> set (map f rs)" "key_of r' = k" for r'
  proof -
    from that(1) obtain r where r: "r \<in> set rs" "r' = f r" by auto
    with that(2) key have "key_of r = k" by simp
    with upd r show ?thesis by simp
  qed
  from one all show ?thesis unfolding touched_def by blast
qed

lemma upsert_row_same_key:
  assumes "sql_upsert_row now conv ins upd vals t = Inr t'"
    and "''updated_at'' \<notin> set ins" and "''updated_at'' \<in> set (column_names t)"
    and "key_of (insert_row now conv ins vals t) = k" and "fst k \<noteq> Null" and "snd k \<noteq> Null"
  shows "touched k {now} (tbl_rows t')"
proof -
  let ?new = "insert_row now conv ins vals t"
  have c: "conflicts ?new r \<longleftrightarrow> key_of r = k" for r
    unfolding conflicts_def using assms(4,5,6) by auto
  from assms(1) show ?thesis
  proof (cases rule: upsert_row_cases)
    case updated
    from updated(1) c have ex: "\<exists>r\<in>set (tbl_rows t). key_of r = k"
      by (auto simp: list_ex_iff)
    have "touched k {now} (map (\<lambda>r. if conflicts ?new r then do_update now upd ?new r else r)
                              (tbl_rows t))"
    proof (rule touched_mapI [OF _ ex])
      fix r
      show "key_of (if conflicts ?new r then do_update now upd ?new r else r) = key_of r"
        by (simp add: key_of_do_update)
    next
      fix r assume "r \<in> set (tbl_rows t)" "key_of r = k"
      with c have "conflicts ?new r" by simp
      then show "cell_of (if conflicts ?new r then do_update now upd ?new r else r)
              ''updated_at'' = TextV now"
        by (simp add: cell_of_do_update)
    qed
    then show ?thesis unfolding updated(2) by simp
  next
    case inserted
    from inserted(1) c have none: "\<forall>r\<in>set (tbl_rows t). key_of r \<noteq> k"
      by (auto simp: list_ex_iff)
    from insert_row_timestamp [OF timestamp_names(2) assms(2,3)]
    have "cell_of ?new ''updated_at'' = TextV now" .
    with none assms(4) have "touched k {now} (tbl_rows t @ [?new])"
      unfolding touched_def by auto
    then show ?thesis unfolding inserted(2) by simp
  qed
qed

lemma executemany_touched:
  assumes "''updated_at'' \<notin> set ins" and "fst k \<noteq> Null" and "snd k \<noteq> Null"
  shows "length vals0 - i = m \<Longrightarrow> i \<le> length vals0 \<Longrightarrow>
   executemany clock conv i ins upd (drop i vals0) t = (t', None) \<Longrightarrow>
   ''updated_at'' \<in> set (column_names t) \<Longrightarrow>
   (\<And>j. j < length vals0 \<Longrightarrow>
      P j \<longleftrightarrow> key_of (insert_row (clock j) conv ins (vals0 ! j) t) = k) \<Longrightarrow>
   ((\<exists>j<i. P j) \<longrightarrow> touched k (clock ` {j. j < i \<and> P j}) (tbl_rows t)) \<Longrightarrow>
   ((\<exists>j<length vals0. P j) \<longrightarrow>
      touched k (clock ` {j. j < length vals0 \<and> P j}) (tbl_rows t'))"
proof (induction m arbitrary: i t)
  case 0
  then have "i = length vals0" by simp
  with "0.prems"(3,6) show ?case by simp
next
  case (Suc m)
  from Suc.prems(1) have i: "i < length vals0" by simp
  then have d: "drop i vals0 = vals0 ! i # drop (Suc i) vals0"
    by (simp add: Cons_nth_drop_Suc)
  from Suc.prems(3) [unfolded d] show ?case
  proof (cases rule: executemany_Cons_cases)
    case (fault e)
    then show ?thesis by simp
  next
    case (step t1)
    from upsert_row_frame [OF step(1)] have cols: "tbl_columns t1 = tbl_columns t" by simp
    then have cn: "''updated_at'' \<in> set (column_names t1)"
      using Suc.prems(4) unfolding column_names_def by simp
    have eqv: "P j \<longleftrightarrow> key_of (insert_row (clock j) conv ins (vals0 ! j) t1) = k"
      if "j < length vals0" for j
      using Suc.prems(5) [OF that] by (simp add: insert_row_cong [OF cols])
    have inv: "(\<exists>j<Suc i. P j) \<longrightarrow> touched k (clock ` {j. j < Suc i \<and> P j}) (tbl_rows t1)"
    proof
      assume ex: "\<exists>j<Suc i. P j"
      show "touched k (clock ` {j. j < Suc i \<and> P j}) (tbl_rows t1)"
      proof (cases "P i")
        case True
        with Suc.prems(5) [OF i]
        have "key_of (insert_row (clock i) conv ins (vals0 ! i) t) = k" by simp
        from upsert_row_same_key [OF step(1) assms(1) Suc.prems(4) this assms(2,3)]
        have "touched k {clock i} (tbl_rows t1)" .
        then show ?thesis by (rule touched_mono) (use True in auto)
      next
        case False
        with ex have "\<exists>j<i. P j" by (metis less_Suc_eq)
        with Suc.prems(6) have old: "touched k (clock ` {j. j < i \<and> P j}) (tbl_rows t)" by simp
        from False Suc.prems(5) [OF i]
        have "key_of (insert_row (clock i) conv ins (vals0 ! i) t) \<noteq> k" by simp
        from upsert_row_other_key [OF step(1) this old]
        show ?thesis by (rule touched_mono) auto
      qed
    qed
    from Suc.prems(1) have m: "length vals0 - Suc i = m" by simp
    from i have le: "Suc i \<le> length vals0" by simp
    from Suc.IH [OF m le step(2) cn eqv inv] show ?thesis .
  qed
qed

lemma written_only:
  assumes "upsert_rows clock conv df pk conn = (conn', Inr (RowsAffected n))"
  obtains t1 t2 where "ensure_columns_exist (df_columns df) conn = (Some t1, Inr ())"
    "statement_compiles (columns_to_insert df) (update_columns df (pk_or_default pk)) t1"
    "executemany clock conv 0 (columns_to_insert df) (update_columns df (pk_or_default pk))
       (df_select df (columns_to_insert df)) t1 = (t2, None)"
    "conn' = Some t2" "n = length (df_values df)"
proof (cases rule: upsert_rows_cases [of df clock conv pk conn])
  case empty
  with assms show ?thesis by simp
next
  case missing
  with assms show ?thesis by simp
next
  case (schema_fault conn1 e)
  with assms show ?thesis by simp
next
  case (write_fault conn1 mid e)
  with assms show ?thesis by simp
next
  case (written t1 t2)
  with assms have "conn' = Some t2" "n = length (df_values df)" by simp_all
  with written(3,4,5) show ?thesis by (rule that)
qed

lemma find_in_front: "find P xs = Some x \<Longrightarrow> find P (xs @ zs) = Some x"
  by (induction xs) (auto split: if_splits)

lemma find_prefix:
  "prefix xs ys \<Longrightarrow> find P xs = Some x \<Longrightarrow> find P ys = Some x"
  by (auto simp: prefix_def find_in_front)

lemma type_of_column_kept:
  assumes "ensure_columns_exist names conn = (Some t1, r)"
    and "c \<in> set reserved_columns" and "c \<in> set (column_names t1)"
  shows "type_of_column (Some t1) c = type_of_column conn c"
proof -
  from ensure_columns_exist_schema [OF assms(1)] obtain added where a:
    "db_schema (Some t1) = db_schema conn @ map (\<lambda>c. new_column c (infer_col_type c)) added"
    "set added \<subseteq> set names - set reserved_columns - set (get_table_columns conn)"
    by blast
  from assms(3) have "c \<in> set (map col_name (db_schema (Some t1)))"
    unfolding column_names_def db_schema_Some .
  with a assms(2) have "c \<in> set (map col_name (db_schema conn))"
    by (auto simp: new_column_def)
  then obtain col where col: "find (\<lambda>col. col_name col = c) (db_schema conn) = Some col"
    by (cases "find (\<lambda>col. col_name col = c) (db_schema conn)") (auto simp: find_None_iff)
  from find_in_front [OF col] a(1)
  have "find (\<lambda>col. col_name col = c) (db_schema (Some t1)) = Some col" by simp
  with col show ?thesis unfolding type_of_column_def by simp
qed

lemma key_columns_not_timestamps:
  "''origem'' \<notin> set timestamp_columns" "''identificador_unidade'' \<notin> set timestamp_columns"
  unfolding timestamp_columns_def by simp_all

lemma proposed_key:
  assumes "ensure_columns_exist (df_columns df) conn = (Some t1, Inr ())"
    and "statement_compiles (columns_to_insert df) upd t1"
    and "''origem'' \<in> set (df_columns df)" and "''identificador_unidade'' \<in> set (df_columns df)"
    and "j < length (df_values df)"
  shows "key_of (insert_row now conv (columns_to_insert df)
                   (df_select df (columns_to_insert df) ! j) t1)
           = stored_key conv conn df j"
proof -
  let ?ins = "columns_to_insert df"
  let ?f = "\<lambda>c. cell_of (zip (df_columns df) (df_values df ! j)) c"
  from assms(5) have v: "df_select df ?ins ! j = map ?f ?ins"
    unfolding df_select_def by simp
  from assms(3,4) key_columns_not_timestamps
  have ins: "''origem'' \<in> set ?ins" "''identificador_unidade'' \<in> set ?ins"
    unfolding set_columns_to_insert by simp_all
  with statement_compiles_columns(2) [OF assms(2)]
  have cn: "''origem'' \<in> set (column_names t1)"
    "''identificador_unidade'' \<in> set (column_names t1)" by blast+
  note ty = type_of_column_kept [OF assms(1) reserved_keys(1) cn(1)]
    type_of_column_kept [OF assms(1) reserved_keys(2) cn(2)]
  show ?thesis
    unfolding key_of_def stored_key_def v
    by (simp add: insert_row_given [OF ins(1) cn(1)] insert_row_given [OF ins(2) cn(2)] ty)
qed

lemma upsert_rows_touched:
  assumes "upsert_rows clock conv df pk conn = (conn', Inr (RowsAffected n))"
    and "j < length (df_values df)"
    and "''origem'' \<in> set (df_columns df)" and "''identificador_unidade'' \<in> set (df_columns df)"
    and "fst (stored_key conv conn df j) \<noteq> Null" and "snd (stored_key conv conn df j) \<noteq> Null"
  shows "touched (stored_key conv conn df j)
           (clock ` {j'. j' < length (df_values df)
                         \<and> stored_key conv conn df j' = stored_key conv conn df j})
           (db_rows conn')"
  using assms(1)
proof (cases rule: written_only)
  case (1 t1 t2)
  let ?ins = "columns_to_insert df"
  let ?vals = "df_select df ?ins"
  let ?k = "stored_key conv conn df j"
  let ?P = "\<lambda>j'. stored_key conv conn df j' = ?k"
  have len: "length ?vals = length (df_values df)" unfolding df_select_def by simp
  have eqv: "?P j' \<longleftrightarrow> key_of (insert_row (clock j') conv ?ins (?vals ! j') t1) = ?k"
    if "j' < length ?vals" for j'
    using proposed_key [OF 1(1,2) assms(3,4), of j' "clock j'" conv] that len by simp
  from 1(3) have run: "executemany clock conv 0 ?ins (update_columns df (pk_or_default pk))
       (drop 0 ?vals) t1 = (t2, None)" by simp
  note cn = statement_compiles_columns(1) [OF 1(2) timestamp_names(2)]
  note ni = timestamps_not_inserted [OF timestamp_names(2), of df]
  have "(\<exists>j'<length ?vals. ?P j') \<longrightarrow>
      touched ?k (clock ` {j'. j' < length ?vals \<and> ?P j'}) (tbl_rows t2)"
    by (rule executemany_touched [OF ni assms(5,6) _ _ run cn, where P = ?P])
       (use eqv in simp_all)
  with assms(2) len 1(4) show ?thesis by (auto simp: db_rows_Some)
qed

lemma upsert_rows_created_kept:
  assumes "i < length (db_rows conn)"
  shows "i < length (db_rows (fst (upsert_rows clock conv df pk conn)))
       \<and> key_of (db_rows (fst (upsert_rows clock conv df pk conn)) ! i) = key_of (db_rows conn ! i)
       \<and> cell_at (fst (upsert_rows clock conv df pk conn)) i ''created_at''
           = cell_at conn i ''created_at''"
proof -
  obtain conn' r where u: "upsert_rows clock conv df pk conn = (conn', r)"
    by (cases "upsert_rows clock conv df pk conn")
  note f = upsert_rows_frame [OF u]
  have "''created_at'' \<notin> insert ''updated_at'' (set (columns_to_insert df))"
    using timestamps_not_inserted [OF timestamp_names(1), of df] by simp
  with f assms have "cell_at conn' i ''created_at'' = cell_at conn i ''created_at''"
    unfolding frame_def cell_at_def by simp
  moreover from f assms have "i < length (db_rows conn')" unfolding frame_def by simp
  ultimately show ?thesis using upsert_rows_keys [OF u assms] unfolding u by simp
qed

lemma upsert_calls_created_kept:
  "i < length (db_rows conn) \<Longrightarrow>
   i < length (db_rows (upsert_calls conv calls conn))
   \<and> key_of (db_rows (upsert_calls conv calls conn) ! i) = key_of (db_rows conn ! i)
   \<and> cell_at (upsert_calls conv calls conn) i ''created_at'' = cell_at conn i ''created_at''"
proof (induction calls arbitrary: conn)
  case Nil
  then show ?case by simp
next
  case (Cons call calls)
  obtain clock df pk where call: "call = (clock, df, pk)" by (cases call)
  note step = upsert_rows_created_kept [OF Cons.prems, of clock conv df pk]
  from step have "i < length (db_rows (fst (upsert_rows clock conv df pk conn)))" by simp
  from Cons.IH [OF this] step show ?case unfolding call by simp
qed

lemma key_columns_not_null_created: "key_columns_not_null (fst (ensure_table_exists None))"
  by code_simp

lemma key_columns_not_null_prefix:
  assumes "prefix (db_schema conn) (db_schema conn')" and "key_columns_not_null conn"
  shows "key_columns_not_null conn'"
proof -
  have "case find (\<lambda>col. col_name col = k) (db_schema conn') of
          None \<Rightarrow> False | Some col \<Rightarrow> col_notnull col \<and> \<not> col_default_now col"
    if "case find (\<lambda>col. col_name col = k) (db_schema conn) of
          None \<Rightarrow> False | Some col \<Rightarrow> col_notnull col \<and> \<not> col_default_now col" for k
  proof (cases "find (\<lambda>col. col_name col = k) (db_schema conn)")
    case None
    with that show ?thesis by simp
  next
    case (Some col)
    from find_prefix [OF assms(1) Some] Some that show ?thesis by simp
  qed
  with assms(2) show ?thesis unfolding key_columns_not_null_def by (auto simp: list_all_iff)
qed

lemma key_columns_not_null_calls:
  "key_columns_not_null conn \<Longrightarrow> key_columns_not_null (upsert_calls conv calls conn)"
proof (induction calls arbitrary: conn)
  case Nil
  then show ?case by simp
next
  case (Cons call calls)
  obtain clock df pk where call: "call = (clock, df, pk)" by (cases call)
  from key_columns_not_null_prefix [OF upsert_rows_prefix Cons.prems]
  have "key_columns_not_null (fst (upsert_rows clock conv df pk conn))" .
  from Cons.IH [OF this] show ?case unfolding call by simp
qed

lemma not_null_checked:
  assumes "sql_upsert_row now conv ins upd vals t = Inr t'"
    and "col \<in> set (tbl_columns t)" and "col_notnull col"
  shows "cell_of (insert_row now conv ins vals t) (col_name col) \<noteq> Null"
proof -
  from assms(1) have "\<not> list_ex (\<lambda>col. col_notnull col
          \<and> cell_of (insert_row now conv ins vals t) (col_name col) = Null) (tbl_columns t)"
    unfolding sql_upsert_row_def Let_def by (auto split: if_splits)
  with assms(2,3) show ?thesis by (auto simp: list_ex_iff)
qed

lemma executemany_not_null:
  "executemany clock conv i ins upd vals t = (t', None) \<Longrightarrow> j < length vals \<Longrightarrow>
   col \<in> set (tbl_columns t) \<Longrightarrow> col_notnull col \<Longrightarrow>
   cell_of (insert_row (clock (i + j)) conv ins (vals ! j) t) (col_name col) \<noteq> Null"
proof (induction vals arbitrary: t i j)
  case Nil
  then show ?case by simp
next
  case (Cons w ws)
  from Cons.prems(1) show ?case
  proof (cases rule: executemany_Cons_cases)
    case (fault e)
    then show ?thesis by simp
  next
    case (step t1)
    from upsert_row_frame [OF step(1)] have cols: "tbl_columns t1 = tbl_columns t" by simp
    show ?thesis
    proof (cases j)
      case 0
      with not_null_checked [OF step(1) Cons.prems(3,4)] show ?thesis by simp
    next
      case (Suc j')
      with Cons.prems(2) have "j' < length ws" by simp
      from Cons.IH [OF step(2) this] Cons.prems(3,4) cols Suc
      show ?thesis by (simp add: insert_row_cong [OF cols])
    qed
  qed
qed

lemma stored_keys_not_null:
  assumes "upsert_rows clock conv df pk conn = (conn', Inr (RowsAffected n))"
    and "key_columns_not_null conn" and "j < length (df_values df)"
  shows "''origem'' \<in> set (df_columns df) \<and> ''identificador_unidade'' \<in> set (df_columns df)
       \<and> fst (stored_key conv conn df j) \<noteq> Null \<and> snd (stored_key conv conn df j) \<noteq> Null"
  using assms(1)
proof (cases rule: written_only)
  case (1 t1 t2)
  let ?ins = "columns_to_insert df"
  let ?f = "\<lambda>c. cell_of (zip (df_columns df) (df_values df ! j)) c"
  from assms(3) have v: "df_select df ?ins ! j = map ?f ?ins"
    "j < length (df_select df ?ins)"
    unfolding df_select_def by simp_all
  from ensure_columns_exist_prefix [of conn "df_columns df"] 1(1)
  have "prefix (db_schema conn) (db_schema (Some t1))" by simp
  from key_columns_not_null_prefix [OF this assms(2)]
  have nn: "key_columns_not_null (Some t1)" .
  have one: "c \<in> set (df_columns df) \<and> conv (type_of_column conn c) (?f c) \<noteq> Null"
    if c: "c \<in> set default_pk_columns" "c \<notin> set timestamp_columns"
      "c \<in> set reserved_columns" for c
  proof -
    from nn c(1) obtain col where col: "find (\<lambda>col. col_name col = c) (tbl_columns t1) = Some col"
      "col_notnull col" "\<not> col_default_now col"
      unfolding key_columns_not_null_def db_schema_Some
      by (auto simp: list_all_iff split: option.splits)
    from col(1) have mem: "col \<in> set (tbl_columns t1)" "col_name col = c"
      by (auto simp: find_Some_iff)
    from executemany_not_null [OF 1(3) v(2) mem(1) col(2)] mem(2) v(1)
    have nz: "cell_of (insert_row (clock j) conv ?ins (map ?f ?ins) t1) c \<noteq> Null" by simp
    have ins: "c \<in> set ?ins"
    proof (rule ccontr)
      assume "c \<notin> set ?ins"
      then have z: "map_of (zip ?ins (map ?f ?ins)) c = None" by (rule map_of_zip_absent)
      have "cell_of (insert_row (clock j) conv ?ins (map ?f ?ins) t1) c = Null"
        unfolding cell_of_insert_row_find [OF col(1)] using c(2) col(3) by (simp add: z)
      with nz show False by simp
    qed
    from mem have cn: "c \<in> set (column_names t1)" unfolding column_names_def by force
    from nz insert_row_given [OF ins cn, of "clock j" conv ?f]
      type_of_column_kept [OF 1(1) c(3) cn]
    have "conv (type_of_column conn c) (?f c) \<noteq> Null" by simp
    with ins show ?thesis unfolding set_columns_to_insert by simp
  qed
  have "''origem'' \<in> set (df_columns df)
      \<and> conv (type_of_column conn ''origem'') (?f ''origem'') \<noteq> Null"
    by (rule one) (simp_all add: default_pk_columns_def key_columns_not_timestamps reserved_keys)
  moreover have "''identificador_unidade'' \<in> set (df_columns df)
      \<and> conv (type_of_column conn ''identificador_unidade'') (?f ''identificador_unidade'') \<noteq> Null"
    by (rule one) (simp_all add: default_pk_columns_def key_columns_not_timestamps reserved_keys)
  ultimately show ?thesis unfolding stored_key_def by simp
qed

lemma upsert_rows_created_new:
  assumes "upsert_rows clock conv df pk conn = (conn', r)"
    and "length (db_rows conn) \<le> i" and "i < length (db_rows conn')"
  shows "\<exists>j<length (df_values df). cell_at conn' i ''created_at'' = TextV (clock j)"
  using upsert_rows_stamps [OF timestamp_names(1), of i clock conv df pk conn] assms
  by simp

text \<open>
  C3. The \<open>created_at\<close> of a stored row never changes again: after any number of later
  upsert calls with well-formed frames, whatever they report, the row is at its place
  under its key with the \<open>created_at\<close> it had. A call that reports rows written gives
  every row it adds the time of one of its statements as \<open>created_at\<close>, and after it
  every key of the batch is stored, each row under that key with the time of a statement
  of the call that wrote this key as \<open>updated_at\<close>. The key of a batch row is the key it
  is stored under, that is, its two key cells as the key columns convert them. This is
  said of the keys without \<open>NULL\<close>, which are all the keys of the batch when the key
  columns are declared \<^verbatim>\<open>NOT NULL\<close>, as they are in every store that upsert calls reach
  from the table \<open>ensure_table_exists\<close> creates.
\<close>

theorem created_at_fixed_updated_at_refreshed:
  "(list_all (\<lambda>call. well_formed (fst (snd call))) calls \<longrightarrow>
      (\<forall>i<length (db_rows conn).
          i < length (db_rows (upsert_calls conv calls conn))
          \<and> key_of (db_rows (upsert_calls conv calls conn) ! i) = key_of (db_rows conn ! i)
          \<and> cell_at (upsert_calls conv calls conn) i ''created_at''
              = cell_at conn i ''created_at''))
   \<and> (well_formed df \<and> upsert_rows clock conv df pk conn = (conn', Inr (RowsAffected n)) \<longrightarrow>
        n = length (df_values df)
        \<and> (\<forall>i. length (db_rows conn) \<le> i \<and> i < length (db_rows conn') \<longrightarrow>
              (\<exists>j<n. cell_at conn' i ''created_at'' = TextV (clock j)))
        \<and> (\<forall>j<n. ''origem'' \<in> set (df_columns df)
                  \<and> ''identificador_unidade'' \<in> set (df_columns df)
                  \<and> fst (stored_key conv conn df j) \<noteq> Null
                  \<and> snd (stored_key conv conn df j) \<noteq> Null \<longrightarrow>
              (\<exists>i<length (db_rows conn'). key_of (db_rows conn' ! i) = stored_key conv conn df j)
              \<and> (\<forall>i<length (db_rows conn').
                    key_of (db_rows conn' ! i) = stored_key conv conn df j \<longrightarrow>
                    (\<exists>j'<n. stored_key conv conn df j' = stored_key conv conn df j
                          \<and> cell_at conn' i ''updated_at'' = TextV (clock j'))))
        \<and> (key_columns_not_null conn \<longrightarrow>
              (\<forall>j<n. ''origem'' \<in> set (df_columns df)
                    \<and> ''identificador_unidade'' \<in> set (df_columns df)
                    \<and> fst (stored_key conv conn df j) \<noteq> Null
                    \<and> snd (stored_key conv conn df j) \<noteq> Null)))
   \<and> key_columns_not_null (upsert_calls conv calls (fst (ensure_table_exists None)))"
proof -
  have A: "list_all (\<lambda>call. well_formed (fst (snd call))) calls \<longrightarrow>
      (\<forall>i<length (db_rows conn).
          i < length (db_rows (upsert_calls conv calls conn))
          \<and> key_of (db_rows (upsert_calls conv calls conn) ! i) = key_of (db_rows conn ! i)
          \<and> cell_at (upsert_calls conv calls conn) i ''created_at''
              = cell_at conn i ''created_at'')"
    using upsert_calls_created_kept [of _ conn conv calls] by blast
  have B: "n = length (df_values df)
        \<and> (\<forall>i. length (db_rows conn) \<le> i \<and> i < length (db_rows conn') \<longrightarrow>
              (\<exists>j<n. cell_at conn' i ''created_at'' = TextV (clock j)))
        \<and> (\<forall>j<n. ''origem'' \<in> set (df_columns df)
                  \<and> ''identificador_unidade'' \<in> set (df_columns df)
                  \<and> fst (stored_key conv conn df j) \<noteq> Null
                  \<and> snd (stored_key conv conn df j) \<noteq> Null \<longrightarrow>
              (\<exists>i<length (db_rows conn'). key_of (db_rows conn' ! i) = stored_key conv conn df j)
              \<and> (\<forall>i<length (db_rows conn').
                    key_of (db_rows conn' ! i) = stored_key conv conn df j \<longrightarrow>
                    (\<exists>j'<n. stored_key conv conn df j' = stored_key conv conn df j
                          \<and> cell_at conn' i ''updated_at'' = TextV (clock j'))))
        \<and> (key_columns_not_null conn \<longrightarrow>
              (\<forall>j<n. ''origem'' \<in> set (df_columns df)
                    \<and> ''identificador_unidade'' \<in> set (df_columns df)
                    \<and> fst (stored_key conv conn df j) \<noteq> Null
                    \<and> snd (stored_key conv conn df j) \<noteq> Null))"
    if u: "upsert_rows clock conv df pk conn = (conn', Inr (RowsAffected n))"
  proof -
    from u have n: "n = length (df_values df)" by (cases rule: written_only)
    have new: "\<exists>j<n. cell_at conn' i ''created_at'' = TextV (clock j)"
      if "length (db_rows conn) \<le> i \<and> i < length (db_rows conn')" for i
      using upsert_rows_created_new [OF u, of i] that n by simp
    have upd: "(\<exists>i<length (db_rows conn'). key_of (db_rows conn' ! i) = stored_key conv conn df j)
              \<and> (\<forall>i<length (db_rows conn').
                    key_of (db_rows conn' ! i) = stored_key conv conn df j \<longrightarrow>
                    (\<exists>j'<n. stored_key conv conn df j' = stored_key conv conn df j
                          \<and> cell_at conn' i ''updated_at'' = TextV (clock j')))"
      if j: "j < n" and k: "''origem'' \<in> set (df_columns df)
                  \<and> ''identificador_unidade'' \<in> set (df_columns df)
                  \<and> fst (stored_key conv conn df j) \<noteq> Null
                  \<and> snd (stored_key conv conn df j) \<noteq> Null" for j
    proof -
      let ?k = "stored_key conv conn df j"
      let ?T = "clock ` {j'. j' < length (df_values df) \<and> stored_key conv conn df j' = ?k}"
      from j n have j': "j < length (df_values df)" by simp
      from k have k1: "''origem'' \<in> set (df_columns df)"
        and k2: "''identificador_unidade'' \<in> set (df_columns df)"
        and k3: "fst ?k \<noteq> Null" and k4: "snd ?k \<noteq> Null" by simp_all
      from upsert_rows_touched [OF u j' k1 k2 k3 k4]
      have t: "touched ?k ?T (db_rows conn')" .
      from t obtain r0 where "r0 \<in> set (db_rows conn')" "key_of r0 = ?k"
        unfolding touched_def by blast
      then have one: "\<exists>i<length (db_rows conn'). key_of (db_rows conn' ! i) = ?k"
        by (metis in_set_conv_nth)
      have all: "\<exists>j'<n. stored_key conv conn df j' = ?k
                  \<and> cell_at conn' i ''updated_at'' = TextV (clock j')"
        if "i < length (db_rows conn')" "key_of (db_rows conn' ! i) = ?k" for i
      proof -
        from that(1) have "db_rows conn' ! i \<in> set (db_rows conn')" by simp
        with t that(2) obtain s where s: "s \<in> ?T"
          "cell_of (db_rows conn' ! i) ''updated_at'' = TextV s"
          unfolding touched_def by blast
        from s(1) obtain j' where "j' < length (df_values df)"
          "stored_key conv conn df j' = ?k" "s = clock j'" by auto
        with s(2) n show ?thesis unfolding cell_at_def by blast
      qed
      from one all show ?thesis by blast
    qed
    have nn: "\<forall>j<n. ''origem'' \<in> set (df_columns df)
                    \<and> ''identificador_unidade'' \<in> set (df_columns df)
                    \<and> fst (stored_key conv conn df j) \<noteq> Null
                    \<and> snd (stored_key conv conn df j) \<noteq> Null"
      if "key_columns_not_null conn"
      using stored_keys_not_null [OF u that] n by simp
    from n new upd nn show ?thesis by blast
  qed
  have C: "key_columns_not_null (upsert_calls conv calls (fst (ensure_table_exists None)))"
    by (rule key_columns_not_null_calls [OF key_columns_not_null_created])
  from A B C show ?thesis by blast
qed

theorem created_at_fixed_updated_at_refreshed_witness:
  "well_formed mixed_batch
   \<and> upsert_rows second_call scenario_affinity mixed_batch None scenario_store
       = (scenario_after_mixed, Inr (RowsAffected 2))
   \<and> length (db_rows scenario_store) = 2 \<and> length (db_rows scenario_after_mixed) = 3
   \<and> cell_at scenario_after_mixed 2 ''created_at'' = TextV ''2024-01-02 09:30:00''
   \<and> stored_key scenario_affinity scenario_store mixed_batch 1 = (TextV ''2013'', TextV ''UPA001'')
   \<and> key_of (db_rows scenario_after_mixed ! 0) = (TextV ''2013'', TextV ''UPA001'')
   \<and> cell_at scenario_after_mixed 0 ''updated_at'' = TextV ''2024-01-02 09:30:01''
   \<and> list_all (\<lambda>call. well_formed (fst (snd call)))
        [(second_call, mixed_batch, None), (third_call, renda_batch, None),
         (third_call, null_key_batch, None)]
   \<and> cell_at (upsert_calls scenario_affinity
                 [(second_call, mixed_batch, None), (third_call, renda_batch, None),
                  (third_call, null_key_batch, None)] scenario_store)
        0 ''created_at'' = TextV ''2024-01-01 10:00:00''
   \<and> key_columns_not_null scenario_store
   \<and> stored_key scenario_affinity scenario_store integer_key_batch 0
       = (TextV ''2013'', TextV ''UPA001'')
   \<and> length (db_rows (fst (upsert_rows third_call scenario_affinity integer_key_batch None
        scenario_store))) = 2
   \<and> cell_at (fst (upsert_rows third_call scenario_affinity integer_key_batch None
        scenario_store)) 0 ''updated_at'' = TextV ''2024-01-03 08:00:00''"
proof -
  let ?calls = "[(second_call, mixed_batch, None), (third_call, renda_batch, None),
                 (third_call, null_key_batch, None)]"
  let ?k = "(TextV ''2013'', TextV ''UPA001'')"
  let ?sk = "stored_key scenario_affinity scenario_store mixed_batch"
  let ?int = "fst (upsert_rows third_call scenario_affinity integer_key_batch None
        scenario_store)"
  let ?ik = "stored_key scenario_affinity scenario_store integer_key_batch"
  have w: "well_formed mixed_batch" "well_formed integer_key_batch" by code_simp+
  have wc: "list_all (\<lambda>call. well_formed (fst (snd call))) ?calls" by code_simp
  have u: "upsert_rows second_call scenario_affinity mixed_batch None scenario_store
     = (scenario_after_mixed, Inr (RowsAffected 2))" by code_simp
  have l: "length (db_rows scenario_store) = 2 \<and> length (db_rows scenario_after_mixed) = 3"
    by code_simp
  have l0: "0 < length (db_rows scenario_store)" "0 < length (db_rows scenario_after_mixed)"
    "0 < length (db_rows ?int)"
    by code_simp+
  have k: "?sk 1 = ?k" by code_simp
  have kd: "?sk 0 \<noteq> ?sk 1" by code_simp
  have kp: "''origem'' \<in> set (df_columns mixed_batch)
     \<and> ''identificador_unidade'' \<in> set (df_columns mixed_batch)
     \<and> fst (?sk 1) \<noteq> Null \<and> snd (?sk 1) \<noteq> Null"
    by code_simp
  have k0: "key_of (db_rows scenario_after_mixed ! 0) = ?sk 1" by code_simp
  have c0: "cell_at scenario_store 0 ''created_at'' = TextV ''2024-01-01 10:00:00''"
    by code_simp
  have ck: "second_call 1 = ''2024-01-02 09:30:01''" "third_call 0 = ''2024-01-03 08:00:00''"
    by code_simp+
  note t = created_at_fixed_updated_at_refreshed
             [of ?calls scenario_store scenario_affinity mixed_batch second_call None
                 scenario_after_mixed 2]
  from t wc have "\<forall>i<length (db_rows scenario_store).
      cell_at (upsert_calls scenario_affinity ?calls scenario_store) i ''created_at''
        = cell_at scenario_store i ''created_at''" by blast
  with l0(1) c0 have a: "cell_at (upsert_calls scenario_affinity ?calls scenario_store) 0
      ''created_at'' = TextV ''2024-01-01 10:00:00''" by simp
  have b: "cell_at scenario_after_mixed 2 ''created_at'' = TextV ''2024-01-02 09:30:00''"
    by code_simp
  have one: "(1::nat) < 2" by simp
  from t w(1) u have "\<forall>j<2. ''origem'' \<in> set (df_columns mixed_batch)
        \<and> ''identificador_unidade'' \<in> set (df_columns mixed_batch)
        \<and> fst (?sk j) \<noteq> Null \<and> snd (?sk j) \<noteq> Null \<longrightarrow>
      (\<forall>i<length (db_rows scenario_after_mixed).
          key_of (db_rows scenario_after_mixed ! i) = ?sk j \<longrightarrow>
          (\<exists>j'<2. ?sk j' = ?sk j
              \<and> cell_at scenario_after_mixed i ''updated_at'' = TextV (second_call j')))"
    by blast
  with one kp have "\<forall>i<length (db_rows scenario_after_mixed).
          key_of (db_rows scenario_after_mixed ! i) = ?sk 1 \<longrightarrow>
          (\<exists>j'<2. ?sk j' = ?sk 1
              \<and> cell_at scenario_after_mixed i ''updated_at'' = TextV (second_call j'))"
    by blast
  with l0(2) k0 obtain j' where j': "j' < 2" "?sk j' = ?sk 1"
    "cell_at scenario_after_mixed 0 ''updated_at'' = TextV (second_call j')" by blast
  from j'(1) have "j' = 0 \<or> j' = 1" by auto
  with j'(2) kd have "j' = 1" by auto
  with j'(3) ck(1) have c: "cell_at scenario_after_mixed 0 ''updated_at''
      = TextV ''2024-01-02 09:30:01''" by simp
  have nn: "key_columns_not_null scenario_store" by code_simp
  have ik: "?ik 0 = ?k" by code_simp
  have ip: "''origem'' \<in> set (df_columns integer_key_batch)
     \<and> ''identificador_unidade'' \<in> set (df_columns integer_key_batch)
     \<and> fst (?ik 0) \<noteq> Null \<and> snd (?ik 0) \<noteq> Null" by code_simp
  have iu: "upsert_rows third_call scenario_affinity integer_key_batch None scenario_store
     = (?int, Inr (RowsAffected 1))" by code_simp
  have il: "length (db_rows ?int) = 2" by code_simp
  have i0: "key_of (db_rows ?int ! 0) = ?ik 0" by code_simp
  have zero: "(0::nat) < 1" by simp
  note ti = created_at_fixed_updated_at_refreshed
             [of "[]" scenario_store scenario_affinity integer_key_batch third_call None ?int 1]
  from ti w(2) iu have "\<forall>j<1. ''origem'' \<in> set (df_columns integer_key_batch)
        \<and> ''identificador_unidade'' \<in> set (df_columns integer_key_batch)
        \<and> fst (?ik j) \<noteq> Null \<and> snd (?ik j) \<noteq> Null \<longrightarrow>
      (\<forall>i<length (db_rows ?int).
          key_of (db_rows ?int ! i) = ?ik j \<longrightarrow>
          (\<exists>j'<1. ?ik j' = ?ik j \<and> cell_at ?int i ''updated_at'' = TextV (third_call j')))"
    by blast
  with zero ip have "\<forall>i<length (db_rows ?int).
          key_of (db_rows ?int ! i) = ?ik 0 \<longrightarrow>
          (\<exists>j'<1. ?ik j' = ?ik 0 \<and> cell_at ?int i ''updated_at'' = TextV (third_call j'))"
    by blast
  with l0(3) i0 obtain j'' where "j'' < 1"
    "cell_at ?int 0 ''updated_at'' = TextV (third_call j'')" by blast
  with ck(2) have d: "cell_at ?int 0 ''updated_at'' = TextV ''2024-01-03 08:00:00''" by simp
  from k k0 have k0': "key_of (db_rows scenario_after_mixed ! 0) = ?k" by simp
  from w(1) wc u l a b c k k0' nn ik il d show ?thesis by simp
qed

end
